theory Spec2Isabelle
  imports Main
begin

section \<open>Values exchanged with the remote service\<close>

text \<open>
  A JavaScript \<open>Error\<close>: its message, and the HTTP status an axios error carries
  (\<open>None\<close> for an error made with \<open>new Error(msg)\<close>).
\<close>

datatype error = Error (message: string) (status: "int option")

text \<open>
  The outcome of an awaited call: it returns a value, it throws, or its promise
  never settles (\<open>Pending\<close>).
\<close>

datatype 'a result = Return 'a | Throw error | Pending

text \<open>
  A number-valued field that starts as \<open>null\<close>: \<open>NaN\<close> is what
  \<open>Date.now() + undefined * 1000\<close> gives.
\<close>

datatype jsnum = Null | NaN | Num int

text \<open>JavaScript truthiness of a string-or-null and of a number-or-null.\<close>

fun truthy :: "string option \<Rightarrow> bool" where
  "truthy None = False"
| "truthy (Some s) = (s \<noteq> [])"

fun truthy_num :: "jsnum \<Rightarrow> bool" where
  "truthy_num (Num n) = (n \<noteq> 0)"
| "truthy_num _ = False"

text \<open>The body of the requests the wrapper sends (\<open>data\<close>; \<open>NoData\<close> is \<open>null\<close>).\<close>

datatype payload =
    NoData
  | PlayTimeSettings (dailyPlayTimeLimit: int) (enabled: bool)
  | RestrictedContent (contentId: string) (ctype: string) (caction: string)

datatype grant = NpssoCode string | RefreshToken "string option"

text \<open>
  Every call handed to axios: a POST to the token endpoint with its grant, or a
  call to the family-management surface with method, url, body and the access token put
  in the \<open>Authorization\<close> header.
\<close>

datatype http_call =
    TokenPost grant
  | ApiCall string string payload "string option"

fun is_api :: "http_call \<Rightarrow> bool" where
  "is_api (ApiCall _ _ _ _) = True"
| "is_api (TokenPost _) = False"

text \<open>\<open>response.data\<close>: the fields the wrapper reads; \<open>None\<close> is an absent field.\<close>

record response_data =
  access_token :: "string option"
  refresh_token :: "string option"
  expires_in :: "int option"
  todayPlayTime :: "int option"
  weekPlayTime :: "int option"
  rstatus :: "string option"
  currentTitle :: "string option"
  lastPlayedAt :: "string option"

type_synonym outcome = "error + response_data"

text \<open>
  The remote service is a parameter: given the calls issued so far and the next call, it
  answers after some latency (in ms) with an error or a response body.
\<close>

type_synonym net = "http_call list \<Rightarrow> http_call \<Rightarrow> nat \<times> outcome"

text \<open>
  What lies outside the two classes: the clock \<open>Date.now()\<close> reads, the calls issued
  so far (oldest first), the promises settled by the request queue, each with the
  caller it belongs to, and the quota checks sent to the Allow2 client (child, minutes).
\<close>

record world =
  clock :: int
  calls :: "http_call list"
  settled :: "(nat \<times> outcome) list"
  checks :: "(string \<times> int) list"

definition api_calls :: "world \<Rightarrow> http_call list" where
  "api_calls w = filter is_api (calls w)"

text \<open>Method, url and body of the family-management calls issued so far.\<close>

fun call_request :: "http_call \<Rightarrow> (string \<times> string \<times> payload) list" where
  "call_request (ApiCall m u d b) = [(m, u, d)]"
| "call_request (TokenPost g) = []"

definition api_requests :: "world \<Rightarrow> (string \<times> string \<times> payload) list" where
  "api_requests w = concat (map call_request (calls w))"

text \<open>\<open>await axios(...)\<close>: the call is logged, time passes, the outcome comes back.\<close>

definition axios :: "net \<Rightarrow> world \<Rightarrow> http_call \<Rightarrow> outcome \<times> world" where
  "axios N w c =
     (let (lat, out) = N (calls w) c
      in (out, w\<lparr>clock := clock w + int lat, calls := calls w @ [c]\<rparr>))"

section \<open>PlayStationAPI: the token manager\<close>

text \<open>An entry of \<open>requestQueue\<close>; \<open>q_caller\<close> stands for its \<open>resolve\<close>/\<open>reject\<close> pair.\<close>

record queued =
  q_method :: string
  q_endpoint :: string
  q_data :: payload
  q_caller :: nat

text \<open>What \<open>getPlayTime\<close> builds and caches.\<close>

record play_time =
  pt_accountId :: string
  todayMinutes :: int
  weekMinutes :: int
  currentlyPlaying :: bool
  currentGame :: "string option"
  lastPlayed :: "string option"

text \<open>
  The fields of the class. \<open>cache\<close> maps a key to the value and the time it expires at;
  \<open>nextCaller\<close> numbers the promises \<open>request\<close> creates.
\<close>

record api =
  npsso :: "string option"
  accessToken :: "string option"
  refreshToken :: "string option"
  tokenExpiry :: jsnum
  cache :: "string \<rightharpoonup> play_time \<times> int"
  requestQueue :: "queued list"
  isProcessingQueue :: bool
  nextCaller :: nat

definition baseURL :: string where
  "baseURL = ''https://m.np.playstation.com''"

definition RATE_LIMIT_MS :: nat where
  "RATE_LIMIT_MS = 100"

definition constructor :: "string option \<Rightarrow> api" where
  "constructor n =
     \<lparr>npsso = n, accessToken = None, refreshToken = None, tokenExpiry = Null,
      cache = Map.empty, requestQueue = [], isProcessingQueue = False, nextCaller = 0\<rparr>"

text \<open>
  The three assignments after a successful token exchange (lines 528-530, 562-564), with
  the value \<open>Date.now()\<close> then has.
\<close>

definition store_tokens :: "int \<Rightarrow> response_data \<Rightarrow> api \<Rightarrow> api" where
  "store_tokens now d a =
     a\<lparr>accessToken := access_token d,
       refreshToken := refresh_token d,
       tokenExpiry := (case expires_in d of None \<Rightarrow> NaN
                        | Some n \<Rightarrow> Num (now + n * 1000))\<rparr>"

definition authenticate :: "net \<Rightarrow> world \<Rightarrow> api \<Rightarrow> bool result \<times> world \<times> api" where
  "authenticate N w a =
     (if \<not> truthy (npsso a) then
        (Throw (Error (''PSN authentication failed: '' @
                       ''NPSSO token is required for authentication'') None), w, a)
      else
        (case axios N w (TokenPost (NpssoCode (the (npsso a)))) of
           (Inr d, w') \<Rightarrow> (Return True, w', store_tokens (clock w') d a)
         | (Inl e, w') \<Rightarrow>
             (Throw (Error (''PSN authentication failed: '' @ message e) None), w', a)))"

definition refreshAccessToken :: "net \<Rightarrow> world \<Rightarrow> api \<Rightarrow> bool result \<times> world \<times> api" where
  "refreshAccessToken N w a =
     (case axios N w (TokenPost (RefreshToken (refreshToken a))) of
        (Inr d, w') \<Rightarrow> (Return True, w', store_tokens (clock w') d a)
      | (Inl e, w') \<Rightarrow> authenticate N w' a)"

text \<open>\<open>await f(); return;\<close> keeps how the call ended and drops its value.\<close>

fun discard :: "'a result \<Rightarrow> unit result" where
  "discard (Return _) = Return ()"
| "discard (Throw e) = Throw e"
| "discard Pending = Pending"

text \<open>
  The test of line 586, \<open>this.tokenExpiry && (Date.now() + 300000) >= this.tokenExpiry\<close>,
  for a value of \<open>Date.now()\<close>.
\<close>

definition expiring :: "int \<Rightarrow> api \<Rightarrow> bool" where
  "expiring now a =
     (truthy_num (tokenExpiry a) \<and>
      (case tokenExpiry a of Num t \<Rightarrow> now + 300000 \<ge> t | _ \<Rightarrow> False))"

definition ensureAuthenticated :: "net \<Rightarrow> world \<Rightarrow> api \<Rightarrow> unit result \<times> world \<times> api" where
  "ensureAuthenticated N w a =
     (if \<not> truthy (accessToken a) then
        (case authenticate N w a of (r, w', a') \<Rightarrow> (discard r, w', a'))
      else if expiring (clock w) a then
        (case refreshAccessToken N w a of (r, w', a') \<Rightarrow> (discard r, w', a'))
      else (Return (), w, a))"

text \<open>The two token exchanges, and whether the remote rejects a call after the calls \<open>h\<close>.\<close>

definition refresh_call :: "api \<Rightarrow> http_call" where
  "refresh_call a = TokenPost (RefreshToken (refreshToken a))"

definition authenticate_call :: "api \<Rightarrow> http_call" where
  "authenticate_call a = TokenPost (NpssoCode (the (npsso a)))"

definition rejected :: "net \<Rightarrow> http_call list \<Rightarrow> http_call \<Rightarrow> bool" where
  "rejected N h c = isl (snd (N h c))"

section \<open>PlayStationAPI: the request queue, run by one caller at a time\<close>

text \<open>
  One turn of the \<open>while\<close> loop of \<open>_processQueue\<close> for the entry just shifted (lines
  616-636): call the remote with the current access token, settle the entry's promise with
  the response body or the error, and wait \<open>RATE_LIMIT_MS\<close> if entries remain (the timer is
  taken to fire when it is due).
\<close>

definition turn :: "net \<Rightarrow> world \<Rightarrow> queued \<Rightarrow> string option \<Rightarrow> bool \<Rightarrow> world" where
  "turn N w q token again =
     (case axios N w (ApiCall (q_method q) (baseURL @ q_endpoint q) (q_data q) token) of
        (out, w1) \<Rightarrow>
          w1\<lparr>clock := (if again then clock w1 + int RATE_LIMIT_MS else clock w1),
             settled := settled w1 @ [(q_caller q, out)]\<rparr>)"

text \<open>The loop (lines 613-637) when nothing else runs during its awaits.\<close>

function processQueue_loop :: "net \<Rightarrow> world \<Rightarrow> api \<Rightarrow> world \<times> api" where
  "processQueue_loop N w a =
     (case requestQueue a of
        [] \<Rightarrow> (w, a)
      | q # rest \<Rightarrow>
          processQueue_loop N (turn N w q (accessToken a) (rest \<noteq> []))
            (a\<lparr>requestQueue := rest\<rparr>))"
  by pat_completeness auto
termination
  by (relation "measure (\<lambda>(N, w, a). length (requestQueue a))") auto

declare processQueue_loop.simps [simp del]

definition processQueue :: "net \<Rightarrow> world \<Rightarrow> api \<Rightarrow> world \<times> api" where
  "processQueue N w a =
     (if isProcessingQueue a \<or> requestQueue a = [] then (w, a)
      else (case processQueue_loop N w (a\<lparr>isProcessingQueue := True\<rparr>) of
              (w', a') \<Rightarrow> (w', a'\<lparr>isProcessingQueue := False\<rparr>)))"

text \<open>
  \<open>request\<close>: after \<open>ensureAuthenticated\<close> the entry is pushed and \<open>_processQueue\<close>
  called; the caller gets what its own promise was settled with, and waits for ever
  if it was not settled.
\<close>

definition request ::
  "net \<Rightarrow> world \<Rightarrow> api \<Rightarrow> string \<Rightarrow> string \<Rightarrow> payload \<Rightarrow> response_data result \<times> world \<times> api" where
  "request N w a m e d =
     (case ensureAuthenticated N w a of
        (Throw err, w1, a1) \<Rightarrow> (Throw err, w1, a1)
      | (Pending, w1, a1) \<Rightarrow> (Pending, w1, a1)
      | (Return _, w1, a1) \<Rightarrow>
          (case processQueue N w1
                  (a1\<lparr>requestQueue := requestQueue a1 @
                         [\<lparr>q_method = m, q_endpoint = e, q_data = d, q_caller = nextCaller a1\<rparr>],
                       nextCaller := Suc (nextCaller a1)\<rparr>) of
             (w2, a2) \<Rightarrow>
               (case map_of (drop (length (settled w1)) (settled w2)) (nextCaller a1) of
                  Some (Inr body) \<Rightarrow> (Return body, w2, a2)
                | Some (Inl err) \<Rightarrow> (Throw err, w2, a2)
                | None \<Rightarrow> (Pending, w2, a2))))"

text \<open>The queue is idle: nothing queued and no activation of \<open>_processQueue\<close> running.\<close>

definition idle :: "api \<Rightarrow> bool" where
  "idle a = (requestQueue a = [] \<and> \<not> isProcessingQueue a)"

text \<open>
  What one call through an idle queue leaves behind: either the request \<open>rq\<close> went out and
  its promise was settled with the remote's answer, returned or thrown accordingly, or
  authentication failed and nothing went out.
\<close>

definition attempted ::
  "string \<times> string \<times> payload \<Rightarrow> world \<Rightarrow> api \<Rightarrow> 'a result \<times> world \<times> api \<Rightarrow> bool" where
  "attempted rq w a x =
     (case x of (r, w', a') \<Rightarrow>
        idle a' \<and> npsso a' = npsso a \<and> checks w' = checks w \<and>
        ((\<exists>v c body. r = Return v \<and> api_requests w' = api_requests w @ [rq] \<and>
                     settled w' = settled w @ [(c, Inr body)])
         \<or> (\<exists>err c e. r = Throw err \<and> api_requests w' = api_requests w @ [rq] \<and>
                     settled w' = settled w @ [(c, Inl e)])
         \<or> (\<exists>err. r = Throw err \<and> api_requests w' = api_requests w \<and> settled w' = settled w)))"

text \<open>A remote that answers every call with a response body.\<close>

definition remote_ok :: "net \<Rightarrow> bool" where
  "remote_ok N = (\<forall>h c. \<not> isl (snd (N h c)))"

section \<open>PlayStationAPI: the operations used by the plugin\<close>

text \<open>
  The node-cache package: an entry is visible until its expiry time has passed (an expiry of
  0 never passes); \<open>set\<close> with a time to live in seconds.
\<close>

definition cache_get :: "world \<Rightarrow> api \<Rightarrow> string \<Rightarrow> play_time option" where
  "cache_get w a k =
     (case cache a k of
        None \<Rightarrow> None
      | Some (v, t) \<Rightarrow> if t \<noteq> 0 \<and> t < clock w then None else Some v)"

definition cache_set :: "world \<Rightarrow> string \<Rightarrow> play_time \<Rightarrow> int \<Rightarrow> api \<Rightarrow> api" where
  "cache_set w k v ttl a = a\<lparr>cache := (cache a)(k \<mapsto> (v, clock w + ttl * 1000))\<rparr>"

definition cache_del :: "string \<Rightarrow> api \<Rightarrow> api" where
  "cache_del k a = a\<lparr>cache := (cache a)(k := None)\<rparr>"

definition users_url :: "string \<Rightarrow> string" where
  "users_url accountId = ''/api/familyManagement/v1/users/'' @ accountId"

definition getPlayTime :: "net \<Rightarrow> world \<Rightarrow> api \<Rightarrow> string \<Rightarrow> play_time result \<times> world \<times> api" where
  "getPlayTime N w a accountId =
     (case cache_get w a (''playTime_'' @ accountId) of
        Some cached \<Rightarrow> (Return cached, w, a)
      | None \<Rightarrow>
          (case request N w a ''GET'' (users_url accountId @ ''/playTime'') NoData of
             (Return body, w', a') \<Rightarrow>
               (let playTime =
                      \<lparr>pt_accountId = accountId,
                       todayMinutes = (case todayPlayTime body of None \<Rightarrow> 0 | Some n \<Rightarrow> n),
                       weekMinutes = (case weekPlayTime body of None \<Rightarrow> 0 | Some n \<Rightarrow> n),
                       currentlyPlaying = (rstatus body = Some ''online''),
                       currentGame = (if truthy (currentTitle body) then currentTitle body else None),
                       lastPlayed = (if truthy (lastPlayedAt body) then lastPlayedAt body else None)\<rparr>
                in (Return playTime, w', cache_set w' (''playTime_'' @ accountId) playTime 60 a'))
           | (Throw e, w', a') \<Rightarrow>
               (Throw (Error (''Failed to get play time: '' @ message e) None), w', a')
           | (Pending, w', a') \<Rightarrow> (Pending, w', a')))"

definition setPlayTimeLimit ::
  "net \<Rightarrow> world \<Rightarrow> api \<Rightarrow> string \<Rightarrow> int \<Rightarrow> bool result \<times> world \<times> api" where
  "setPlayTimeLimit N w a accountId limitMinutes =
     (case request N w a ''PUT'' (users_url accountId @ ''/playTimeSettings'')
             (PlayTimeSettings limitMinutes (limitMinutes > 0)) of
        (Return _, w', a') \<Rightarrow> (Return True, w', cache_del (''playTime_'' @ accountId) a')
      | (Throw e, w', a') \<Rightarrow>
          (Throw (Error (''Failed to set play time limit: '' @ message e) None), w', a')
      | (Pending, w', a') \<Rightarrow> (Pending, w', a'))"

definition blockGame ::
  "net \<Rightarrow> world \<Rightarrow> api \<Rightarrow> string \<Rightarrow> string \<Rightarrow> bool result \<times> world \<times> api" where
  "blockGame N w a accountId gameId =
     (case request N w a ''POST'' (users_url accountId @ ''/restrictedContent'')
             (RestrictedContent gameId ''game'' ''block'') of
        (Return _, w', a') \<Rightarrow> (Return True, w', a')
      | (Throw e, w', a') \<Rightarrow>
          (Throw (Error (''Failed to block game: '' @ message e) None), w', a')
      | (Pending, w', a') \<Rightarrow> (Pending, w', a'))"

definition unblockGame ::
  "net \<Rightarrow> world \<Rightarrow> api \<Rightarrow> string \<Rightarrow> string \<Rightarrow> bool result \<times> world \<times> api" where
  "unblockGame N w a accountId gameId =
     (case request N w a ''DELETE'' (users_url accountId @ ''/restrictedContent/'' @ gameId)
             NoData of
        (Return _, w', a') \<Rightarrow> (Return True, w', a')
      | (Throw e, w', a') \<Rightarrow>
          (Throw (Error (''Failed to unblock game: '' @ message e) None), w', a')
      | (Pending, w', a') \<Rightarrow> (Pending, w', a'))"

section \<open>PlayStationPlugin\<close>

record mapping =
  m_childId :: string
  psnAccountId :: string

record config =
  c_npsso :: "string option"
  defaultDailyLimit :: "int option"
  accountMapping :: "mapping list"

record psn_account =
  accountId :: string
  a_childId :: string

text \<open>A value of \<open>activeSessions\<close>; \<open>None\<close> is a property not set yet.\<close>

record session =
  suspended :: "bool option"
  suspendedAt :: "int option"
  resumedAt :: "int option"
  lastActive :: "int option"
  s_currentGame :: "string option"

definition empty_session :: session where
  "empty_session = \<lparr>suspended = None, suspendedAt = None, resumedAt = None,
     lastActive = None, s_currentGame = None\<rparr>"

record restriction =
  action :: string
  gameId :: string

datatype action_taken =
    Suspend "string option"
  | Resume
  | Restrictions "restriction list"

text \<open>The three objects \<open>_processChildState\<close> returns.\<close>

datatype child_result =
    Skipped string string
  | Success string string "action_taken list"
  | Failure string string

fun result_childId :: "child_result \<Rightarrow> string" where
  "result_childId (Skipped c _) = c"
| "result_childId (Success c _ _) = c"
| "result_childId (Failure c _) = c"

datatype batch = BatchOk "child_result list" | BatchFail string

datatype notification =
    SessionSuspended string
  | SessionResumed string
  | RestrictionsApplied string "restriction list"
  | StateProcessed "child_result list"
  | ErrorEvent error

text \<open>
  The fields of the plugin after \<open>onLoad\<close>. \<open>emitted\<close> lists what \<open>emit\<close> was called
  with; \<open>errorListener\<close> says whether a subscriber to \<open>error\<close> is registered (without one,
  \<open>emit('error', e)\<close> throws \<open>e\<close>).
\<close>

record plugin =
  config :: config
  psn :: api
  activeSessions :: "string \<rightharpoonup> session"
  isInitialized :: bool
  lastError :: "error option"
  emitted :: "notification list"
  errorListener :: bool

text \<open>The Allow2 client's \<open>check\<close>: from the checks made so far, the child and the minutes.\<close>

record quota =
  allowed :: bool
  remaining :: int

type_synonym allow2 = "(string \<times> int) list \<Rightarrow> string \<Rightarrow> int \<Rightarrow> nat \<times> (error + quota)"

text \<open>Running a method of \<open>this.psn\<close> from the plugin.\<close>

definition on_psn ::
  "(api \<Rightarrow> 'a result \<times> world \<times> api) \<Rightarrow> plugin \<Rightarrow> 'a result \<times> world \<times> plugin" where
  "on_psn f p = (case f (psn p) of (r, w', a') \<Rightarrow> (r, w', p\<lparr>psn := a'\<rparr>))"

definition getPSNAccountForChild :: "plugin \<Rightarrow> string \<Rightarrow> psn_account option" where
  "getPSNAccountForChild p childId =
     (case find (\<lambda>m. m_childId m = childId) (accountMapping (config p)) of
        Some m \<Rightarrow> Some \<lparr>accountId = psnAccountId m, a_childId = m_childId m\<rparr>
      | None \<Rightarrow> None)"

definition checkQuota ::
  "net \<Rightarrow> allow2 \<Rightarrow> world \<Rightarrow> plugin \<Rightarrow> string \<Rightarrow> psn_account
     \<Rightarrow> (bool \<times> int \<times> int) result \<times> world \<times> plugin" where
  "checkQuota N Q w p childId psnAccount =
     (case on_psn (\<lambda>a. getPlayTime N w a (accountId psnAccount)) p of
        (Return playTime, w1, p1) \<Rightarrow>
          (case Q (checks w1) childId (todayMinutes playTime) of
             (lat, out) \<Rightarrow>
               (let w2 = w1\<lparr>clock := clock w1 + int lat,
                           checks := checks w1 @ [(childId, todayMinutes playTime)]\<rparr>
                in case out of
                     Inr quotaResponse \<Rightarrow>
                       (Return (allowed quotaResponse, remaining quotaResponse,
                                todayMinutes playTime), w2, p1)
                   | Inl e \<Rightarrow> (Throw e, w2, p1)))
      | (Throw e, w1, p1) \<Rightarrow> (Throw e, w1, p1)
      | (Pending, w1, p1) \<Rightarrow> (Pending, w1, p1))"

definition suspendSession ::
  "net \<Rightarrow> world \<Rightarrow> plugin \<Rightarrow> psn_account \<Rightarrow> unit result \<times> world \<times> plugin" where
  "suspendSession N w p psnAccount =
     (case on_psn (\<lambda>a. setPlayTimeLimit N w a (accountId psnAccount) 0) p of
        (Return _, w1, p1) \<Rightarrow>
          (let session = (case activeSessions p1 (accountId psnAccount) of
                            Some s \<Rightarrow> s | None \<Rightarrow> empty_session)
           in (Return (), w1,
               p1\<lparr>activeSessions := (activeSessions p1)(accountId psnAccount \<mapsto>
                      session\<lparr>suspended := Some True, suspendedAt := Some (clock w1)\<rparr>),
                  emitted := emitted p1 @ [SessionSuspended (accountId psnAccount)]\<rparr>))
      | (Throw e, w1, p1) \<Rightarrow> (Throw e, w1, p1)
      | (Pending, w1, p1) \<Rightarrow> (Pending, w1, p1))"

text \<open>\<open>this.config.defaultDailyLimit || 480\<close>.\<close>

definition dailyLimit :: "plugin \<Rightarrow> int" where
  "dailyLimit p =
     (case defaultDailyLimit (config p) of
        None \<Rightarrow> 480
      | Some n \<Rightarrow> if n = 0 then 480 else n)"

definition resumeSession ::
  "net \<Rightarrow> world \<Rightarrow> plugin \<Rightarrow> psn_account \<Rightarrow> unit result \<times> world \<times> plugin" where
  "resumeSession N w p psnAccount =
     (case on_psn (\<lambda>a. setPlayTimeLimit N w a (accountId psnAccount) (dailyLimit p)) p of
        (Return _, w1, p1) \<Rightarrow>
          (let session = (case activeSessions p1 (accountId psnAccount) of
                            Some s \<Rightarrow> s | None \<Rightarrow> empty_session)
           in (Return (), w1,
               p1\<lparr>activeSessions := (activeSessions p1)(accountId psnAccount \<mapsto>
                      session\<lparr>suspended := Some False, resumedAt := Some (clock w1)\<rparr>),
                  emitted := emitted p1 @ [SessionResumed (accountId psnAccount)]\<rparr>))
      | (Throw e, w1, p1) \<Rightarrow> (Throw e, w1, p1)
      | (Pending, w1, p1) \<Rightarrow> (Pending, w1, p1))"

text \<open>The \<open>for ... of\<close> loop of \<open>_applyGameRestrictions\<close> (lines 294-300).\<close>

fun applyGameRestrictions_loop ::
  "net \<Rightarrow> world \<Rightarrow> api \<Rightarrow> string \<Rightarrow> restriction list \<Rightarrow> unit result \<times> world \<times> api" where
  "applyGameRestrictions_loop N w a acct [] = (Return (), w, a)"
| "applyGameRestrictions_loop N w a acct (r # rs) =
     (if action r = ''block'' then
        (case blockGame N w a acct (gameId r) of
           (Return _, w', a') \<Rightarrow> applyGameRestrictions_loop N w' a' acct rs
         | (Throw e, w', a') \<Rightarrow> (Throw e, w', a')
         | (Pending, w', a') \<Rightarrow> (Pending, w', a'))
      else if action r = ''unblock'' then
        (case unblockGame N w a acct (gameId r) of
           (Return _, w', a') \<Rightarrow> applyGameRestrictions_loop N w' a' acct rs
         | (Throw e, w', a') \<Rightarrow> (Throw e, w', a')
         | (Pending, w', a') \<Rightarrow> (Pending, w', a'))
      else applyGameRestrictions_loop N w a acct rs)"

definition applyGameRestrictions ::
  "net \<Rightarrow> world \<Rightarrow> plugin \<Rightarrow> psn_account \<Rightarrow> restriction list
     \<Rightarrow> unit result \<times> world \<times> plugin" where
  "applyGameRestrictions N w p psnAccount gameRestrictions =
     (case on_psn (\<lambda>a. applyGameRestrictions_loop N w a (accountId psnAccount)
                          gameRestrictions) p of
        (Return _, w1, p1) \<Rightarrow>
          (Return (), w1,
           p1\<lparr>emitted := emitted p1 @
                  [RestrictionsApplied (accountId psnAccount) gameRestrictions]\<rparr>)
      | (Throw e, w1, p1) \<Rightarrow> (Throw e, w1, p1)
      | (Pending, w1, p1) \<Rightarrow> (Pending, w1, p1))"

text \<open>The request each entry of a restriction list stands for.\<close>

definition restriction_request :: "string \<Rightarrow> restriction \<Rightarrow> string \<times> string \<times> payload" where
  "restriction_request acct r =
     (if action r = ''block'' then
        (''POST'', baseURL @ users_url acct @ ''/restrictedContent'',
         RestrictedContent (gameId r) ''game'' ''block'')
      else
        (''DELETE'', baseURL @ users_url acct @ ''/restrictedContent/'' @ gameId r, NoData))"

text \<open>
  A child's state in \<open>allow2State.children\<close>: \<open>restrictions\<close> is \<open>None\<close> when the state
  has no (truthy) \<open>restrictions\<close>, \<open>Some None\<close> when it has one without \<open>games\<close>.
\<close>

record child_state =
  blocked :: bool
  blockedReason :: "string option"
  restrictions :: "restriction list option option"

text \<open>Lines 159-183: suspend, or check the quota and resume or suspend.\<close>

definition enforceQuota ::
  "net \<Rightarrow> allow2 \<Rightarrow> world \<Rightarrow> plugin \<Rightarrow> string \<Rightarrow> child_state \<Rightarrow> psn_account
     \<Rightarrow> action_taken list result \<times> world \<times> plugin" where
  "enforceQuota N Q w p childId st psnAccount =
     (if blocked st then
        (case suspendSession N w p psnAccount of
           (Return _, w1, p1) \<Rightarrow> (Return [Suspend (blockedReason st)], w1, p1)
         | (Throw e, w1, p1) \<Rightarrow> (Throw e, w1, p1)
         | (Pending, w1, p1) \<Rightarrow> (Pending, w1, p1))
      else
        (case checkQuota N Q w p childId psnAccount of
           (Return (isAllowed, _), w1, p1) \<Rightarrow>
             (if isAllowed then
                (case activeSessions p1 (accountId psnAccount) of
                   Some session \<Rightarrow>
                     (if suspended session = Some True then
                        (case resumeSession N w1 p1 psnAccount of
                           (Return _, w2, p2) \<Rightarrow> (Return [Resume], w2, p2)
                         | (Throw e, w2, p2) \<Rightarrow> (Throw e, w2, p2)
                         | (Pending, w2, p2) \<Rightarrow> (Pending, w2, p2))
                      else (Return [], w1, p1))
                 | None \<Rightarrow> (Return [], w1, p1))
              else
                (case suspendSession N w1 p1 psnAccount of
                   (Return _, w2, p2) \<Rightarrow> (Return [Suspend (Some ''Quota exhausted'')], w2, p2)
                 | (Throw e, w2, p2) \<Rightarrow> (Throw e, w2, p2)
                 | (Pending, w2, p2) \<Rightarrow> (Pending, w2, p2)))
         | (Throw e, w1, p1) \<Rightarrow> (Throw e, w1, p1)
         | (Pending, w1, p1) \<Rightarrow> (Pending, w1, p1)))"

text \<open>Lines 157-196: the \<open>try\<close> block of \<open>_processChildState\<close> once the account is found.\<close>

definition processChildActions ::
  "net \<Rightarrow> allow2 \<Rightarrow> world \<Rightarrow> plugin \<Rightarrow> string \<Rightarrow> child_state \<Rightarrow> psn_account
     \<Rightarrow> action_taken list result \<times> world \<times> plugin" where
  "processChildActions N Q w p childId st psnAccount =
     (case enforceQuota N Q w p childId st psnAccount of
        (Return actions, w1, p1) \<Rightarrow>
          (case restrictions st of
             Some (Some games) \<Rightarrow>
               (case applyGameRestrictions N w1 p1 psnAccount games of
                  (Return _, w2, p2) \<Rightarrow> (Return (actions @ [Restrictions games]), w2, p2)
                | (Throw e, w2, p2) \<Rightarrow> (Throw e, w2, p2)
                | (Pending, w2, p2) \<Rightarrow> (Pending, w2, p2))
           | _ \<Rightarrow> (Return actions, w1, p1))
      | (Throw e, w1, p1) \<Rightarrow> (Throw e, w1, p1)
      | (Pending, w1, p1) \<Rightarrow> (Pending, w1, p1))"

text \<open>
  \<open>_processChildState\<close>; a child whose state is \<open>null\<close> (\<open>None\<close>) makes \<open>state.blocked\<close>
  throw inside the \<open>try\<close>.
\<close>

definition processChildState ::
  "net \<Rightarrow> allow2 \<Rightarrow> world \<Rightarrow> plugin \<Rightarrow> string \<Rightarrow> child_state option
     \<Rightarrow> child_result result \<times> world \<times> plugin" where
  "processChildState N Q w p childId state =
     (case getPSNAccountForChild p childId of
        None \<Rightarrow> (Return (Skipped childId ''No PSN account mapped''), w, p)
      | Some psnAccount \<Rightarrow>
          (case state of
             None \<Rightarrow>
               (Return (Failure childId
                  ''Cannot read properties of null (reading 'blocked')''), w, p)
           | Some st \<Rightarrow>
               (case processChildActions N Q w p childId st psnAccount of
                  (Return actions, w1, p1) \<Rightarrow>
                    (Return (Success childId (accountId psnAccount) actions), w1, p1)
                | (Throw e, w1, p1) \<Rightarrow> (Return (Failure childId (message e)), w1, p1)
                | (Pending, w1, p1) \<Rightarrow> (Pending, w1, p1))))"

text \<open>The \<open>for ... in\<close> loop of \<open>newState\<close> over the children, in enumeration order.\<close>

fun newState_loop ::
  "net \<Rightarrow> allow2 \<Rightarrow> world \<Rightarrow> plugin \<Rightarrow> (string \<times> child_state option) list
     \<Rightarrow> child_result list \<Rightarrow> child_result list result \<times> world \<times> plugin" where
  "newState_loop N Q w p [] results = (Return results, w, p)"
| "newState_loop N Q w p ((childId, childState) # rest) results =
     (case processChildState N Q w p childId childState of
        (Return r, w1, p1) \<Rightarrow> newState_loop N Q w1 p1 rest (results @ [r])
      | (Throw e, w1, p1) \<Rightarrow> (Throw e, w1, p1)
      | (Pending, w1, p1) \<Rightarrow> (Pending, w1, p1))"

text \<open>The \<open>catch\<close> block of \<open>newState\<close> (lines 137-142).\<close>

definition newState_catch :: "error \<Rightarrow> world \<Rightarrow> plugin \<Rightarrow> batch result \<times> world \<times> plugin" where
  "newState_catch e w p =
     (if errorListener p then
        (Return (BatchFail (message e)), w,
         p\<lparr>lastError := Some e, emitted := emitted p @ [ErrorEvent e]\<rparr>)
      else (Throw e, w, p\<lparr>lastError := Some e\<rparr>))"

definition newState ::
  "net \<Rightarrow> allow2 \<Rightarrow> world \<Rightarrow> plugin \<Rightarrow> (string \<times> child_state option) list
     \<Rightarrow> batch result \<times> world \<times> plugin" where
  "newState N Q w p children =
     (if \<not> isInitialized p then newState_catch (Error ''Plugin not initialized'' None) w p
      else
        (case newState_loop N Q w p children [] of
           (Return results, w1, p1) \<Rightarrow>
             (Return (BatchOk results), w1,
              p1\<lparr>emitted := emitted p1 @ [StateProcessed results]\<rparr>)
         | (Throw e, w1, p1) \<Rightarrow> newState_catch e w1 p1
         | (Pending, w1, p1) \<Rightarrow> (Pending, w1, p1)))"

text \<open>
  The states a batch passes through when every child is processed in turn, each from the
  state its predecessor left, whatever the outcomes: the state before each child, then the
  state after the last.
\<close>

fun sweep ::
  "net \<Rightarrow> allow2 \<Rightarrow> world \<Rightarrow> plugin \<Rightarrow> (string \<times> child_state option) list
     \<Rightarrow> (world \<times> plugin) list" where
  "sweep N Q w p [] = [(w, p)]"
| "sweep N Q w p ((childId, childState) # rest) =
     (w, p) # (case processChildState N Q w p childId childState of
                 (r, w1, p1) \<Rightarrow> sweep N Q w1 p1 rest)"

text \<open>
  A call of a plugin method comes back (returns or throws) and leaves the queue idle and
  the configuration as it was.
\<close>

definition settles :: "plugin \<Rightarrow> 'a result \<times> world \<times> plugin \<Rightarrow> bool" where
  "settles p x =
     (case x of (r, w', p') \<Rightarrow> r \<noteq> Pending \<and> idle (psn p') \<and> config p' = config p)"

section \<open>The request queue under interleaved callers\<close>

text \<open>
  JavaScript runs each piece of code between two awaits to completion, so the queue is
  modelled as an automaton whose steps are those pieces. An activation of \<open>_processQueue\<close>
  is running (only within a step), or suspended on its axios call (the call is in flight),
  or suspended on the rate-limit timer, due at the given time.
\<close>

datatype activation = Running | AwaitResponse queued | AwaitDelay int

fun in_flight :: "activation \<Rightarrow> bool" where
  "in_flight (AwaitResponse _) = True"
| "in_flight _ = False"

text \<open>
  What an observer sees, with the time it happens at: a call handed to the transport
  (line 617), a promise settled (lines 628 and 630) and the number of entries queued at
  that moment, the timer armed (line 635), the loop left (line 639).
\<close>

datatype obs =
    Started queued int
  | Delivered queued outcome nat int
  | DelayArmed int
  | Drained int

text \<open>
  The state: the wrapper, the suspended activations, the time of the last step and the
  observations, newest first.
\<close>

record pipeline =
  papi :: api
  activations :: "activation list"
  now :: int
  log :: "obs list"

text \<open>
  What the environment does: a caller's promise executor pushes an entry and calls
  \<open>_processQueue\<close> (lines 598-599), the call of activation \<open>i\<close> comes back with an outcome,
  the timer of activation \<open>i\<close> fires.
\<close>

datatype event = Submit queued | Settle nat outcome | Fire nat

definition remove_nth :: "nat \<Rightarrow> 'a list \<Rightarrow> 'a list" where
  "remove_nth i xs = take i xs @ drop (Suc i) xs"

text \<open>
  Activation \<open>i\<close> at the loop test (line 613): with an entry queued it shifts it and calls
  the transport, otherwise it clears the flag and ends.
\<close>

definition loop_test :: "int \<Rightarrow> nat \<Rightarrow> pipeline \<Rightarrow> pipeline" where
  "loop_test t i s =
     (case requestQueue (papi s) of
        [] \<Rightarrow> s\<lparr>papi := (papi s)\<lparr>isProcessingQueue := False\<rparr>,
                activations := remove_nth i (activations s),
                log := Drained t # log s\<rparr>
      | q # rest \<Rightarrow>
          s\<lparr>papi := (papi s)\<lparr>requestQueue := rest\<rparr>,
            activations := (activations s)[i := AwaitResponse q],
            log := Started q t # log s\<rparr>)"

text \<open>Lines 598-599 and the call of \<open>_processQueue\<close> up to its first await.\<close>

definition submit :: "int \<Rightarrow> queued \<Rightarrow> pipeline \<Rightarrow> pipeline" where
  "submit t q s =
     (let s1 = s\<lparr>papi := (papi s)\<lparr>requestQueue := requestQueue (papi s) @ [q]\<rparr>\<rparr>
      in if isProcessingQueue (papi s1) \<or> requestQueue (papi s1) = [] then s1
         else loop_test t (length (activations s1))
                (s1\<lparr>papi := (papi s1)\<lparr>isProcessingQueue := True\<rparr>,
                    activations := activations s1 @ [Running]\<rparr>))"

text \<open>Lines 628-637 for activation \<open>i\<close>, whose call for \<open>q\<close> came back with \<open>out\<close>.\<close>

definition settle :: "int \<Rightarrow> nat \<Rightarrow> queued \<Rightarrow> outcome \<Rightarrow> pipeline \<Rightarrow> pipeline" where
  "settle t i q out s =
     (let s1 = s\<lparr>log := Delivered q out (length (requestQueue (papi s))) t # log s\<rparr>
      in if requestQueue (papi s1) \<noteq> [] then
           s1\<lparr>activations := (activations s1)[i := AwaitDelay (t + int RATE_LIMIT_MS)],
              log := DelayArmed t # log s1\<rparr>
         else loop_test t i s1)"

text \<open>
  A step at time \<open>t\<close>. Time does not run backwards, only a call in flight can come back,
  and a timer does not fire before it is due; any other step is refused.
\<close>

fun step :: "int \<times> event \<Rightarrow> pipeline \<Rightarrow> pipeline option" where
  "step (t, ev) s =
     (if t < now s then None
      else
        (case ev of
           Submit q \<Rightarrow> Some (submit t q (s\<lparr>now := t\<rparr>))
         | Settle i out \<Rightarrow>
             (if i < length (activations s) then
                (case activations s ! i of
                   AwaitResponse q \<Rightarrow> Some (settle t i q out (s\<lparr>now := t\<rparr>))
                 | _ \<Rightarrow> None)
              else None)
         | Fire i \<Rightarrow>
             (if i < length (activations s) then
                (case activations s ! i of
                   AwaitDelay due \<Rightarrow> if due \<le> t then Some (loop_test t i (s\<lparr>now := t\<rparr>)) else None
                 | _ \<Rightarrow> None)
              else None)))"

fun run :: "(int \<times> event) list \<Rightarrow> pipeline \<Rightarrow> pipeline option" where
  "run [] s = Some s"
| "run (e # es) s = (case step e s of None \<Rightarrow> None | Some s' \<Rightarrow> run es s')"

definition pipeline_of :: "api \<Rightarrow> int \<Rightarrow> pipeline" where
  "pipeline_of a t = \<lparr>papi = a, activations = [], now = t, log = []\<rparr>"

text \<open>The entries submitted by a schedule and the outcomes it brings back, in order.\<close>

fun submitted :: "(int \<times> event) list \<Rightarrow> queued list" where
  "submitted [] = []"
| "submitted ((t, Submit q) # es) = q # submitted es"
| "submitted (_ # es) = submitted es"

fun outcomes :: "(int \<times> event) list \<Rightarrow> outcome list" where
  "outcomes [] = []"
| "outcomes ((t, Settle i out) # es) = out # outcomes es"
| "outcomes (_ # es) = outcomes es"

text \<open>The entries handed to the transport and the promises settled, oldest first.\<close>

fun started :: "obs list \<Rightarrow> queued list" where
  "started [] = []"
| "started (Started q t # os) = started os @ [q]"
| "started (_ # os) = started os"

fun delivered :: "obs list \<Rightarrow> (queued \<times> outcome) list" where
  "delivered [] = []"
| "delivered (Delivered q out n t # os) = delivered os @ [(q, out)]"
| "delivered (_ # os) = delivered os"

text \<open>
  The spacing of a log (newest first): a call started after the timer was armed starts no
  earlier than \<open>RATE_LIMIT_MS\<close> after the arming; the timer is armed at the very time a
  promise was settled with entries still queued, and the loop is left at the very time a
  promise was settled with nothing queued; no call starts right after a settlement or
  another start, a promise is settled right after the start of its own call, and nothing
  but the start of a call follows the arming of the timer.
\<close>

fun paced :: "obs list \<Rightarrow> bool" where
  "paced [] = True"
| "paced (Started q t # DelayArmed t1 # os) =
     (t1 + int RATE_LIMIT_MS \<le> t \<and> paced (DelayArmed t1 # os))"
| "paced (Started q t # Delivered q' out n t1 # os) = False"
| "paced (Started q t # Started q' t' # os) = False"
| "paced (Started q t # os) = paced os"
| "paced (DelayArmed t # Delivered q out n t1 # os) =
     (t = t1 \<and> 0 < n \<and> paced (Delivered q out n t1 # os))"
| "paced (DelayArmed t # os) = False"
| "paced (Drained t # Delivered q out n t1 # os) =
     (t = t1 \<and> n = 0 \<and> paced (Delivered q out n t1 # os))"
| "paced (Drained t # os) = False"
| "paced (Delivered q out n t # Started q' t' # os) = (q = q' \<and> paced (Started q' t' # os))"
| "paced (Delivered q out n t # os) = False"

text \<open>The entries whose calls are in flight.\<close>

fun awaited :: "activation list \<Rightarrow> queued list" where
  "awaited [] = []"
| "awaited (AwaitResponse q # as) = q # awaited as"
| "awaited (_ # as) = awaited as"

text \<open>
  What holds of the automaton between steps: at most one activation exists, the flag is
  set exactly while it exists, the newest observation tells where it is suspended, the log
  is well spaced, and the entries started are those settled followed by the one in flight.
\<close>

definition queue_inv :: "pipeline \<Rightarrow> bool" where
  "queue_inv s =
     (paced (log s) \<and> started (log s) = map fst (delivered (log s)) @ awaited (activations s) \<and>
      ((activations s = [] \<and> \<not> isProcessingQueue (papi s) \<and>
          (log s = [] \<or> (\<exists>t os. log s = Drained t # os)))
       \<or> (\<exists>q t os. activations s = [AwaitResponse q] \<and> isProcessingQueue (papi s) \<and>
              log s = Started q t # os)
       \<or> (\<exists>t q out n os. activations s = [AwaitDelay (t + int RATE_LIMIT_MS)] \<and>
              isProcessingQueue (papi s) \<and> requestQueue (papi s) \<noteq> [] \<and>
              log s = DelayArmed t # Delivered q out n t # os)))"

section \<open>Concurrent calls of request\<close>















section \<open>Concrete scenarios\<close>

definition w0 :: world where
  "w0 = \<lparr>clock = 1000000, calls = [], settled = [], checks = []\<rparr>"

definition token_body :: response_data where
  "token_body = \<lparr>access_token = Some ''at2'', refresh_token = Some ''rt2'',
     expires_in = Some 3600, todayPlayTime = None, weekPlayTime = None, rstatus = None,
     currentTitle = None, lastPlayedAt = None\<rparr>"

definition err401 :: error where
  "err401 = Error ''Request failed with status code 401'' (Some 401)"

definition net_ok :: net where
  "net_ok h c = (5, Inr token_body)"

definition net_down :: net where
  "net_down h c = (5, Inl err401)"

text \<open>A remote whose token answer expires 1000 seconds before it is given.\<close>

definition epoch_body :: response_data where
  "epoch_body = token_body\<lparr>expires_in := Some (- 1000)\<rparr>"

definition net_epoch :: net where
  "net_epoch h c = (0, Inr epoch_body)"

text \<open>The wrapper and the world after \<open>authenticate\<close> against that remote at time 1000000.\<close>

definition api_epoch :: api where
  "api_epoch = snd (snd (authenticate net_epoch w0 (constructor (Some ''npsso''))))"

definition w_epoch :: world where
  "w_epoch = fst (snd (authenticate net_epoch w0 (constructor (Some ''npsso''))))"

text \<open>A remote that rejects the first call it sees and accepts every later one.\<close>

definition net_first_fails :: net where
  "net_first_fails h c = (5, if h = [] then Inl err401 else Inr token_body)"

text \<open>An authenticated wrapper whose token expires at \<open>t\<close>.\<close>

definition api_with_expiry :: "jsnum \<Rightarrow> api" where
  "api_with_expiry t =
     (constructor (Some ''npsso''))\<lparr>accessToken := Some ''at1'', refreshToken := Some ''rt1'',
        tokenExpiry := t\<rparr>"

text \<open>A loaded plugin with two mapped children and a token that never expires.\<close>

definition config0 :: config where
  "config0 = \<lparr>c_npsso = Some ''npsso'', defaultDailyLimit = None,
     accountMapping = [\<lparr>m_childId = ''c1'', psnAccountId = ''kid1''\<rparr>,
                       \<lparr>m_childId = ''c2'', psnAccountId = ''kid2''\<rparr>]\<rparr>"

definition plugin0 :: plugin where
  "plugin0 = \<lparr>config = config0, psn = api_with_expiry Null, activeSessions = Map.empty,
     isInitialized = True, lastError = None, emitted = [], errorListener = True\<rparr>"

definition account1 :: psn_account where
  "account1 = \<lparr>accountId = ''kid1'', a_childId = ''c1''\<rparr>"



text \<open>A batch: a mapped child, an unmapped one, another mapped child; all blocked.\<close>

definition blocked_state :: child_state where
  "blocked_state = \<lparr>blocked = True, blockedReason = Some ''bedtime'', restrictions = None\<rparr>"

definition children0 :: "(string \<times> child_state option) list" where
  "children0 = [(''c1'', Some blocked_state), (''c9'', Some blocked_state),
                (''c2'', Some blocked_state)]"

text \<open>The plugin with a third mapped child, and the batch with that child added.\<close>

definition plugin2 :: plugin where
  "plugin2 = plugin0\<lparr>config := config0\<lparr>accountMapping := accountMapping config0 @
     [\<lparr>m_childId = ''c3'', psnAccountId = ''kid3''\<rparr>]\<rparr>\<rparr>"

definition children1 :: "(string \<times> child_state option) list" where
  "children1 = children0 @ [(''c3'', Some blocked_state)]"

definition quota_ok :: allow2 where
  "quota_ok h c t = (3, Inr \<lparr>allowed = True, remaining = 60\<rparr>)"

text \<open>
  Two callers submit at time 0; the first call fails at 5, the timer fires at 105, the
  second call succeeds at 110.
\<close>

definition entry_a :: queued where
  "entry_a = \<lparr>q_method = ''GET'', q_endpoint = ''/a'', q_data = NoData, q_caller = 0\<rparr>"

definition entry_b :: queued where
  "entry_b = \<lparr>q_method = ''GET'', q_endpoint = ''/b'', q_data = NoData, q_caller = 1\<rparr>"

definition schedule0 :: "(int \<times> event) list" where
  "schedule0 = [(0, Submit entry_a), (0, Submit entry_b), (5, Settle 0 (Inl err401)),
                (105, Fire 0), (110, Settle 0 (Inr token_body))]"



section \<open>Properties of the token manager\<close>

lemma axios_eq:
  "axios N w c = (snd (N (calls w) c),
                  w\<lparr>clock := clock w + int (fst (N (calls w) c)), calls := calls w @ [c]\<rparr>)"
  by (simp add: axios_def split: prod.splits)

lemma authenticate_calls:
  "calls (fst (snd (authenticate N w a))) =
     (if truthy (npsso a) then calls w @ [TokenPost (NpssoCode (the (npsso a)))] else calls w)"
  by (cases "snd (N (calls w) (TokenPost (NpssoCode (the (npsso a)))))")
     (simp_all add: authenticate_def axios_eq)

lemma authenticate_throws:
  "(\<exists>e. fst (authenticate N w a) = Throw e) \<longleftrightarrow>
     (\<not> truthy (npsso a) \<or> isl (snd (N (calls w) (TokenPost (NpssoCode (the (npsso a)))))))"
  by (cases "snd (N (calls w) (TokenPost (NpssoCode (the (npsso a)))))")
     (simp_all add: authenticate_def axios_eq)

lemma authenticate_not_Pending: "fst (authenticate N w a) \<noteq> Pending"
  by (cases "snd (N (calls w) (TokenPost (NpssoCode (the (npsso a)))))")
     (simp_all add: authenticate_def axios_eq)

lemma refreshAccessToken_fail:
  "isl (snd (N (calls w) (TokenPost (RefreshToken (refreshToken a))))) \<Longrightarrow>
   refreshAccessToken N w a =
     authenticate N (snd (axios N w (TokenPost (RefreshToken (refreshToken a))))) a"
  by (cases "snd (N (calls w) (TokenPost (RefreshToken (refreshToken a))))")
     (simp_all add: refreshAccessToken_def axios_eq)

lemma refreshAccessToken_ok:
  "snd (N (calls w) (TokenPost (RefreshToken (refreshToken a)))) = Inr d \<Longrightarrow>
   refreshAccessToken N w a =
     (Return True, snd (axios N w (TokenPost (RefreshToken (refreshToken a)))),
      store_tokens (clock (snd (axios N w (TokenPost (RefreshToken (refreshToken a)))))) d a)"
  by (simp add: refreshAccessToken_def axios_eq)

lemma refreshAccessToken_first_call:
  "take (Suc (length (calls w))) (calls (fst (snd (refreshAccessToken N w a))))
     = calls w @ [TokenPost (RefreshToken (refreshToken a))]"
proof (cases "snd (N (calls w) (TokenPost (RefreshToken (refreshToken a))))")
  case (Inl e)
  then show ?thesis
    by (simp add: refreshAccessToken_fail authenticate_calls) (simp add: axios_eq)
next
  case (Inr d)
  then show ?thesis
    by (simp add: refreshAccessToken_ok) (simp add: axios_eq)
qed

lemma ensureAuthenticated_no_token:
  "\<not> truthy (accessToken a) \<Longrightarrow>
   ensureAuthenticated N w a =
     (discard (fst (authenticate N w a)), snd (authenticate N w a))"
  by (simp add: ensureAuthenticated_def split: prod.splits)

lemma ensureAuthenticated_expiring:
  "truthy (accessToken a) \<Longrightarrow> expiring (clock w) a \<Longrightarrow>
   ensureAuthenticated N w a =
     (discard (fst (refreshAccessToken N w a)), snd (refreshAccessToken N w a))"
  by (simp add: ensureAuthenticated_def split: prod.splits)

lemma ensureAuthenticated_valid:
  "truthy (accessToken a) \<Longrightarrow> \<not> expiring (clock w) a \<Longrightarrow> ensureAuthenticated N w a = (Return (), w, a)"
  by (simp add: ensureAuthenticated_def)

lemma discard_Throw [simp]: "(discard r = Throw e) = (r = Throw e)"
  by (cases r) auto

lemma discard_Pending [simp]: "(discard r = Pending) = (r = Pending)"
  by (cases r) auto

lemma discard_Return [simp]: "(discard r = Return u) = (\<exists>x. r = Return x)"
  by (cases r) auto

lemma store_tokens_frame [simp]:
  "requestQueue (store_tokens t d a) = requestQueue a"
  "isProcessingQueue (store_tokens t d a) = isProcessingQueue a"
  "nextCaller (store_tokens t d a) = nextCaller a"
  "cache (store_tokens t d a) = cache a"
  "npsso (store_tokens t d a) = npsso a"
  by (simp_all add: store_tokens_def)

lemma axios_frame [simp]:
  "settled (snd (axios N w c)) = settled w"
  "checks (snd (axios N w c)) = checks w"
  "calls (snd (axios N w c)) = calls w @ [c]"
  "fst (axios N w c) = snd (N (calls w) c)"
  by (simp_all add: axios_eq)

lemma api_requests_axios [simp]:
  "api_requests (snd (axios N w c)) = api_requests w @ call_request c"
  by (simp add: api_requests_def)


lemma authenticate_frame:
  assumes "authenticate N w a = (r, w', a')"
  shows "requestQueue a' = requestQueue a \<and> isProcessingQueue a' = isProcessingQueue a
     \<and> nextCaller a' = nextCaller a \<and> cache a' = cache a \<and> npsso a' = npsso a
     \<and> settled w' = settled w \<and> checks w' = checks w \<and> api_requests w' = api_requests w
     \<and> r \<noteq> Pending"
proof (cases "truthy (npsso a)")
  case False
  with assms show ?thesis by (auto simp: authenticate_def)
next
  case True
  let ?c = "TokenPost (NpssoCode (the (npsso a)))"
  have w': "w' = snd (axios N w ?c)"
    using assms True by (cases "snd (N (calls w) ?c)") (auto simp: authenticate_def axios_eq)
  show ?thesis
    using assms True unfolding w'
    by (cases "snd (N (calls w) ?c)") (auto simp: authenticate_def axios_eq api_requests_def)
qed

lemma refreshAccessToken_frame:
  assumes "refreshAccessToken N w a = (r, w', a')"
  shows "requestQueue a' = requestQueue a \<and> isProcessingQueue a' = isProcessingQueue a
     \<and> nextCaller a' = nextCaller a \<and> cache a' = cache a \<and> npsso a' = npsso a
     \<and> settled w' = settled w \<and> checks w' = checks w \<and> api_requests w' = api_requests w
     \<and> r \<noteq> Pending"
proof (cases "snd (N (calls w) (TokenPost (RefreshToken (refreshToken a))))")
  case (Inl e)
  then have "authenticate N (snd (axios N w (TokenPost (RefreshToken (refreshToken a))))) a = (r, w', a')"
    using assms by (simp add: refreshAccessToken_fail)
  from authenticate_frame [OF this] show ?thesis by simp
next
  case (Inr d)
  with assms show ?thesis by (auto simp: refreshAccessToken_ok)
qed

lemma ensureAuthenticated_frame:
  assumes "ensureAuthenticated N w a = (r, w', a')"
  shows "requestQueue a' = requestQueue a \<and> isProcessingQueue a' = isProcessingQueue a
     \<and> nextCaller a' = nextCaller a \<and> cache a' = cache a \<and> npsso a' = npsso a
     \<and> settled w' = settled w \<and> checks w' = checks w \<and> api_requests w' = api_requests w
     \<and> r \<noteq> Pending"
proof -
  consider (auth) "\<not> truthy (accessToken a)"
    | (refresh) "truthy (accessToken a)" "expiring (clock w) a"
    | (valid) "truthy (accessToken a)" "\<not> expiring (clock w) a"
    by blast
  then show ?thesis
  proof cases
    case auth
    then have "authenticate N w a = (fst (authenticate N w a), w', a')"
      and "r = discard (fst (authenticate N w a))"
      using assms by (simp_all add: ensureAuthenticated_no_token prod_eq_iff)
    with authenticate_frame [of N w a _ w' a'] show ?thesis by simp
  next
    case refresh
    then have "refreshAccessToken N w a = (fst (refreshAccessToken N w a), w', a')"
      and "r = discard (fst (refreshAccessToken N w a))"
      using assms by (simp_all add: ensureAuthenticated_expiring prod_eq_iff)
    with refreshAccessToken_frame [of N w a _ w' a'] show ?thesis by simp
  next
    case valid
    with assms show ?thesis by (auto simp: ensureAuthenticated_valid)
  qed
qed

lemma turn_frame [simp]:
  "calls (turn N w q tok again) = calls w @ [ApiCall (q_method q) (baseURL @ q_endpoint q) (q_data q) tok]"
  "settled (turn N w q tok again) = settled w @ [(q_caller q, snd (N (calls w) (ApiCall (q_method q) (baseURL @ q_endpoint q) (q_data q) tok)))]"
  "checks (turn N w q tok again) = checks w"
  "clock (turn N w q tok again) = clock w + int (fst (N (calls w) (ApiCall (q_method q) (baseURL @ q_endpoint q) (q_data q) tok))) + (if again then int RATE_LIMIT_MS else 0)"
  by (simp_all add: turn_def axios_eq)

lemma api_requests_turn [simp]:
  "api_requests (turn N w q tok again) = api_requests w @ [(q_method q, baseURL @ q_endpoint q, q_data q)]"
  by (simp add: api_requests_def)

lemma processQueue_single:
  assumes "requestQueue a = [q]" "\<not> isProcessingQueue a"
  shows "processQueue N w a = (turn N w q (accessToken a) False, a\<lparr>requestQueue := []\<rparr>)"
proof -
  have 1: "processQueue_loop N w (a\<lparr>isProcessingQueue := True\<rparr>) =
        processQueue_loop N (turn N w q (accessToken a) False) (a\<lparr>isProcessingQueue := True, requestQueue := []\<rparr>)"
    using assms by (subst processQueue_loop.simps) simp
  have 2: "processQueue_loop N w' (a\<lparr>isProcessingQueue := True, requestQueue := []\<rparr>)
       = (w', a\<lparr>isProcessingQueue := True, requestQueue := []\<rparr>)" for w'
    by (subst processQueue_loop.simps) simp
  show ?thesis using assms by (simp add: processQueue_def 1 2)
qed

lemma request_idle:
  assumes "idle a" and ea: "ensureAuthenticated N w a = (r0, w1, a1)"
  shows "request N w a m e d =
     (case r0 of
        Return _ \<Rightarrow>
          (case snd (N (calls w1) (ApiCall m (baseURL @ e) d (accessToken a1))) of
             Inr body \<Rightarrow> Return body | Inl err \<Rightarrow> Throw err,
           turn N w1 \<lparr>q_method = m, q_endpoint = e, q_data = d, q_caller = nextCaller a1\<rparr>
             (accessToken a1) False,
           a1\<lparr>nextCaller := Suc (nextCaller a1)\<rparr>)
      | Throw err \<Rightarrow> (Throw err, w1, a1)
      | Pending \<Rightarrow> (Pending, w1, a1))"
proof (cases r0)
  case (Return u)
  from ensureAuthenticated_frame [OF ea] assms(1)
  have q: "requestQueue a1 = []" "\<not> isProcessingQueue a1" by (simp_all add: idle_def)
  let ?q = "\<lparr>q_method = m, q_endpoint = e, q_data = d, q_caller = nextCaller a1\<rparr>"
  let ?a = "a1\<lparr>requestQueue := requestQueue a1 @ [?q], nextCaller := Suc (nextCaller a1)\<rparr>"
  have "requestQueue ?a = [?q]" "\<not> isProcessingQueue ?a" using q by simp_all
  from processQueue_single [OF this, of N w1]
  show ?thesis using ea Return q
    by (cases "snd (N (calls w1) (ApiCall m (baseURL @ e) d (accessToken a1)))")
       (simp_all add: request_def)
qed (use ea in \<open>simp_all add: request_def\<close>)

text \<open>
  C2 as stated fails for a token pair whose expiry is 0. \<open>authenticate\<close> at time 1000000
  against a remote answering \<open>expires_in = -1000\<close> stores the expiry 0; now + 300000 is
  not below it, yet \<open>ensureAuthenticated\<close> makes no exchange: line 586 tests
  \<open>this.tokenExpiry &&\<close> first, and 0 is falsy.
\<close>

theorem zero_expiry_not_refreshed:
  "fst (authenticate net_epoch w0 (constructor (Some ''npsso''))) = Return True
   \<and> truthy (accessToken api_epoch) \<and> refreshToken api_epoch = Some ''rt2''
   \<and> tokenExpiry api_epoch = Num 0
   \<and> clock w_epoch + 300000 \<ge> 0
   \<and> calls w_epoch = [TokenPost (NpssoCode ''npsso'')]
   \<and> ensureAuthenticated net_epoch w_epoch api_epoch = (Return (), w_epoch, api_epoch)"
  by (simp add: api_epoch_def w_epoch_def authenticate_def axios_eq store_tokens_def
      net_epoch_def epoch_body_def token_body_def constructor_def w0_def
      ensureAuthenticated_def expiring_def)

text \<open>
  C2, amended. \<open>ensureAuthenticated\<close> with no access token performs exactly one
  exchange, the authenticate exchange with the credential; with an access token whose
  expiry is a timestamp other than 0 and within 300000 ms of now, its first exchange is
  the refresh exchange with the stored refresh token; with an access token whose expiry
  lies beyond that margin, or is 0, it performs no exchange and changes nothing.
\<close>

theorem ensureAuthenticated_cases:
  "(\<not> truthy (accessToken a) \<and> npsso a = Some cred \<and> cred \<noteq> [] \<longrightarrow>
      calls (fst (snd (ensureAuthenticated N w a))) = calls w @ [TokenPost (NpssoCode cred)])
   \<and> (truthy (accessToken a) \<and> tokenExpiry a = Num t \<and> t \<noteq> 0 \<and> clock w + 300000 \<ge> t \<longrightarrow>
      take (Suc (length (calls w))) (calls (fst (snd (ensureAuthenticated N w a))))
        = calls w @ [TokenPost (RefreshToken (refreshToken a))])
   \<and> (truthy (accessToken a) \<and> tokenExpiry a = Num t \<and> clock w + 300000 < t \<longrightarrow>
      ensureAuthenticated N w a = (Return (), w, a))
   \<and> (truthy (accessToken a) \<and> tokenExpiry a = Num 0 \<longrightarrow>
      ensureAuthenticated N w a = (Return (), w, a))"
proof (intro conjI impI)
  assume "\<not> truthy (accessToken a) \<and> npsso a = Some cred \<and> cred \<noteq> []"
  then show "calls (fst (snd (ensureAuthenticated N w a))) = calls w @ [TokenPost (NpssoCode cred)]"
    by (simp add: ensureAuthenticated_no_token authenticate_calls)
next
  assume "truthy (accessToken a) \<and> tokenExpiry a = Num t \<and> t \<noteq> 0 \<and> clock w + 300000 \<ge> t"
  then show "take (Suc (length (calls w))) (calls (fst (snd (ensureAuthenticated N w a))))
               = calls w @ [TokenPost (RefreshToken (refreshToken a))]"
    by (simp add: ensureAuthenticated_expiring refreshAccessToken_first_call expiring_def)
next
  assume "truthy (accessToken a) \<and> tokenExpiry a = Num t \<and> clock w + 300000 < t"
  then show "ensureAuthenticated N w a = (Return (), w, a)"
    by (simp add: ensureAuthenticated_valid expiring_def)
next
  assume "truthy (accessToken a) \<and> tokenExpiry a = Num 0"
  then show "ensureAuthenticated N w a = (Return (), w, a)"
    by (simp add: ensureAuthenticated_valid expiring_def)
qed

theorem ensureAuthenticated_cases_witness:
  "calls (fst (snd (ensureAuthenticated net_ok w0 (constructor (Some ''npsso'')))))
     = calls w0 @ [TokenPost (NpssoCode ''npsso'')]
   \<and> take (Suc (length (calls w0)))
        (calls (fst (snd (ensureAuthenticated net_ok w0 (api_with_expiry (Num 1200000)))))) =
       calls w0 @ [TokenPost (RefreshToken (refreshToken (api_with_expiry (Num 1200000))))]
   \<and> ensureAuthenticated net_ok w0 (api_with_expiry (Num 1300001))
       = (Return (), w0, api_with_expiry (Num 1300001))
   \<and> ensureAuthenticated net_ok w0 (api_with_expiry (Num 0))
       = (Return (), w0, api_with_expiry (Num 0))"
  using ensureAuthenticated_cases [where a = "constructor (Some ''npsso'')" and cred = "''npsso''"
      and w = w0 and N = net_ok and t = 0]
    ensureAuthenticated_cases [where a = "api_with_expiry (Num 1200000)" and cred = "''npsso''"
      and w = w0 and N = net_ok and t = 1200000]
    ensureAuthenticated_cases [where a = "api_with_expiry (Num 1300001)" and cred = "''npsso''"
      and w = w0 and N = net_ok and t = 1300001]
    ensureAuthenticated_cases [where a = "api_with_expiry (Num 0)" and cred = "''npsso''"
      and w = w0 and N = net_ok and t = 0]
  by (simp add: constructor_def api_with_expiry_def w0_def)

lemma ensureAuthenticated_throws_iff:
  "(\<exists>e. fst (ensureAuthenticated N w a) = Throw e) \<longleftrightarrow>
     (\<not> truthy (accessToken a) \<and>
        (\<not> truthy (npsso a) \<or> rejected N (calls w) (authenticate_call a)))
     \<or> (truthy (accessToken a) \<and> expiring (clock w) a \<and> rejected N (calls w) (refresh_call a) \<and>
         (\<not> truthy (npsso a) \<or>
          rejected N (calls w @ [refresh_call a]) (authenticate_call a)))"
proof -
  let ?w1 = "snd (axios N w (TokenPost (RefreshToken (refreshToken a))))"
  consider (auth) "\<not> truthy (accessToken a)"
    | (refresh_fail) "truthy (accessToken a)" "expiring (clock w) a"
        "isl (snd (N (calls w) (TokenPost (RefreshToken (refreshToken a)))))"
    | (refresh_ok) "truthy (accessToken a)" "expiring (clock w) a"
        "\<not> isl (snd (N (calls w) (TokenPost (RefreshToken (refreshToken a)))))"
    | (valid) "truthy (accessToken a)" "\<not> expiring (clock w) a"
    by blast
  then show ?thesis
  proof cases
    case auth
    then show ?thesis
      using authenticate_throws [of N w a]
      by (simp add: ensureAuthenticated_no_token rejected_def authenticate_call_def)
  next
    case refresh_fail
    then have "ensureAuthenticated N w a =
        (discard (fst (authenticate N ?w1 a)), snd (authenticate N ?w1 a))"
      by (simp add: ensureAuthenticated_expiring refreshAccessToken_fail)
    then show ?thesis
      using refresh_fail authenticate_throws [of N ?w1 a]
      by (simp add: rejected_def authenticate_call_def refresh_call_def)
  next
    case refresh_ok
    then obtain d where "snd (N (calls w) (TokenPost (RefreshToken (refreshToken a)))) = Inr d"
      by (cases "snd (N (calls w) (TokenPost (RefreshToken (refreshToken a))))") auto
    then show ?thesis
      using refresh_ok
      by (simp add: ensureAuthenticated_expiring refreshAccessToken_ok rejected_def
          refresh_call_def)
  next
    case valid
    then show ?thesis by (simp add: ensureAuthenticated_valid)
  qed
qed

text \<open>
  C3 as stated fails: with no token pair and a credential the remote rejects,
  \<open>ensureAuthenticated\<close> fails although no refresh was attempted and the credential is
  neither absent nor empty.
\<close>

theorem initial_authenticate_failure:
  "fst (ensureAuthenticated net_down w0 (constructor (Some ''npsso''))) =
     Throw (Error ''PSN authentication failed: Request failed with status code 401'' None)
   \<and> truthy (npsso (constructor (Some ''npsso'')))
   \<and> calls (fst (snd (ensureAuthenticated net_down w0 (constructor (Some ''npsso'')))))
       = [TokenPost (NpssoCode ''npsso'')]"
  by (simp add: ensureAuthenticated_def authenticate_def axios_eq net_down_def constructor_def
      w0_def err401_def)

text \<open>
  C3, amended. When the refresh exchange of \<open>ensureAuthenticated\<close> is rejected,
  \<open>authenticate\<close> runs exactly once after it: the calls made are the refresh exchange
  followed by one authenticate exchange when the credential is non-empty, and by nothing
  when it is absent or empty. \<open>ensureAuthenticated\<close> fails exactly when the
  \<open>authenticate\<close> it ends in fails (credential absent or empty, or its exchange rejected):
  the initial one when there is no access token, or the fallback after a rejected refresh.
\<close>

theorem ensureAuthenticated_failure:
  "(truthy (accessToken a) \<and> expiring (clock w) a \<and> rejected N (calls w) (refresh_call a) \<longrightarrow>
      calls (fst (snd (ensureAuthenticated N w a))) =
        calls w @ refresh_call a # (if truthy (npsso a) then [authenticate_call a] else []))
   \<and> ((\<exists>e. fst (ensureAuthenticated N w a) = Throw e) \<longleftrightarrow>
        (\<not> truthy (accessToken a) \<and>
           (\<not> truthy (npsso a) \<or> rejected N (calls w) (authenticate_call a)))
        \<or> (truthy (accessToken a) \<and> expiring (clock w) a \<and> rejected N (calls w) (refresh_call a) \<and>
            (\<not> truthy (npsso a) \<or>
             rejected N (calls w @ [refresh_call a]) (authenticate_call a))))"
proof (intro conjI impI)
  let ?w1 = "snd (axios N w (TokenPost (RefreshToken (refreshToken a))))"
  assume h: "truthy (accessToken a) \<and> expiring (clock w) a \<and> rejected N (calls w) (refresh_call a)"
  then have "ensureAuthenticated N w a =
      (discard (fst (authenticate N ?w1 a)), snd (authenticate N ?w1 a))"
    by (simp add: ensureAuthenticated_expiring refreshAccessToken_fail rejected_def
        refresh_call_def)
  then show "calls (fst (snd (ensureAuthenticated N w a))) =
        calls w @ refresh_call a # (if truthy (npsso a) then [authenticate_call a] else [])"
    using authenticate_calls [of N ?w1 a]
    by (simp add: authenticate_call_def refresh_call_def)
next
  show "(\<exists>e. fst (ensureAuthenticated N w a) = Throw e) \<longleftrightarrow>
        (\<not> truthy (accessToken a) \<and>
           (\<not> truthy (npsso a) \<or> rejected N (calls w) (authenticate_call a)))
        \<or> (truthy (accessToken a) \<and> expiring (clock w) a \<and> rejected N (calls w) (refresh_call a) \<and>
            (\<not> truthy (npsso a) \<or>
             rejected N (calls w @ [refresh_call a]) (authenticate_call a)))"
    by (rule ensureAuthenticated_throws_iff)
qed

theorem ensureAuthenticated_failure_witness:
  "calls (fst (snd (ensureAuthenticated net_first_fails w0 (api_with_expiry (Num 1200000))))) =
     [TokenPost (RefreshToken (Some ''rt1'')), TokenPost (NpssoCode ''npsso'')]
   \<and> fst (ensureAuthenticated net_first_fails w0 (api_with_expiry (Num 1200000))) = Return ()
   \<and> fst (ensureAuthenticated net_down w0 (api_with_expiry (Num 1200000))) =
       Throw (Error ''PSN authentication failed: Request failed with status code 401'' None)"
  using ensureAuthenticated_failure [of "api_with_expiry (Num 1200000)" w0 net_first_fails]
    ensureAuthenticated_failure [of "api_with_expiry (Num 1200000)" w0 net_down]
  by (simp add: api_with_expiry_def constructor_def w0_def expiring_def rejected_def
      refresh_call_def authenticate_call_def net_first_fails_def net_down_def
      ensureAuthenticated_def refreshAccessToken_def authenticate_def axios_eq err401_def)

section \<open>Properties of calls through the idle queue\<close>

lemma ensureAuthenticated_ok:
  assumes "remote_ok N" "truthy (npsso a)"
  shows "fst (ensureAuthenticated N w a) = Return ()"
proof -
  have nothrow: "\<not> (\<exists>e. fst (ensureAuthenticated N w a) = Throw e)"
    using assms ensureAuthenticated_throws_iff [of N w a] by (simp add: remote_ok_def rejected_def)
  have "fst (ensureAuthenticated N w a) \<noteq> Pending"
    using ensureAuthenticated_frame [of N w a] by (metis prod.collapse)
  with nothrow show ?thesis by (cases "fst (ensureAuthenticated N w a)") auto
qed

lemma request_attempted:
  assumes "idle a"
  shows "attempted (m, baseURL @ e, d) w a (request N w a m e d)"
proof -
  obtain r0 w1 a1 where ea: "ensureAuthenticated N w a = (r0, w1, a1)"
    by (cases "ensureAuthenticated N w a")
  note fr = ensureAuthenticated_frame [OF ea]
  show ?thesis
  proof (cases r0)
    case (Return u)
    show ?thesis
      using fr assms Return
      by (cases "snd (N (calls w1) (ApiCall m (baseURL @ e) d (accessToken a1)))")
         (simp_all add: request_idle [OF assms ea] attempted_def idle_def)
  next
    case (Throw err)
    then show ?thesis using fr assms
      by (simp add: request_idle [OF assms ea] attempted_def idle_def)
  next
    case Pending
    then show ?thesis using fr by simp
  qed
qed

lemma request_ok:
  assumes "idle a" "remote_ok N" "truthy (npsso a)"
  shows "\<exists>body. fst (request N w a m e d) = Return body"
proof -
  obtain w1 a1 where ea: "ensureAuthenticated N w a = (Return (), w1, a1)"
    using ensureAuthenticated_ok [OF assms(2,3), of w] by (cases "ensureAuthenticated N w a") auto
  have "\<not> isl (snd (N (calls w1) (ApiCall m (baseURL @ e) d (accessToken a1))))"
    using assms(2) by (simp add: remote_ok_def)
  then obtain body where "snd (N (calls w1) (ApiCall m (baseURL @ e) d (accessToken a1))) = Inr body"
    by (cases "snd (N (calls w1) (ApiCall m (baseURL @ e) d (accessToken a1)))") auto
  then show ?thesis by (simp add: request_idle [OF assms(1) ea])
qed

lemma attempted_Return:
  "attempted rq w a (r, w', a') \<Longrightarrow> r = Return v \<Longrightarrow> idle (f a') \<Longrightarrow> npsso (f a') = npsso a' \<Longrightarrow>
     attempted rq w a (Return v', w', f a')"
  by (auto simp: attempted_def)

lemma attempted_Throw:
  "attempted rq w a (r, w', a') \<Longrightarrow> r = Throw e \<Longrightarrow> attempted rq w a (Throw e', w', a')"
  by (auto simp: attempted_def)

lemma attempted_not_Pending: "attempted rq w a (r, w', a') \<Longrightarrow> r \<noteq> Pending"
  by (auto simp: attempted_def)

lemma cache_del_frame [simp]:
  "idle (cache_del k a) = idle a" "npsso (cache_del k a) = npsso a"
  by (simp_all add: cache_del_def idle_def)

lemma cache_set_frame [simp]:
  "idle (cache_set w k v ttl a) = idle a" "npsso (cache_set w k v ttl a) = npsso a"
  by (simp_all add: cache_set_def idle_def)

lemma setPlayTimeLimit_attempted:
  assumes "idle a"
  shows "attempted (''PUT'', baseURL @ users_url acct @ ''/playTimeSettings'',
                    PlayTimeSettings lim (0 < lim)) w a (setPlayTimeLimit N w a acct lim)"
proof -
  let ?rq = "request N w a ''PUT'' (users_url acct @ ''/playTimeSettings'') (PlayTimeSettings lim (0 < lim))"
  obtain r w' a' where rq: "?rq = (r, w', a')" by (cases ?rq)
  have at: "attempted (''PUT'', baseURL @ users_url acct @ ''/playTimeSettings'',
                    PlayTimeSettings lim (0 < lim)) w a (r, w', a')"
    using request_attempted [OF assms, where m = "''PUT''"
        and e = "users_url acct @ ''/playTimeSettings''" and d = "PlayTimeSettings lim (0 < lim)"
        and w = w and N = N] rq
    by simp
  show ?thesis
  proof (cases r)
    case (Return v)
    have "idle a'" using at by (simp add: attempted_def)
    then show ?thesis
      using attempted_Return [OF at Return, of "cache_del (''playTime_'' @ acct)" True] Return rq
      by (simp add: setPlayTimeLimit_def)
  next
    case (Throw e)
    then show ?thesis using attempted_Throw [OF at Throw] rq by (simp add: setPlayTimeLimit_def)
  next
    case Pending
    then show ?thesis using attempted_not_Pending [OF at] by simp
  qed
qed


text \<open>
  C10. With an access token and a \<open>null\<close> \<open>tokenExpiry\<close>, \<open>ensureAuthenticated\<close> makes no
  exchange, changes nothing and returns, whatever the clock reads; a request made through
  the idle queue then sends the stored access token.
\<close>

theorem null_expiry_never_refreshed:
  assumes "truthy (accessToken a)" and "tokenExpiry a = Null"
  shows "ensureAuthenticated N w a = (Return (), w, a)
       \<and> (idle a \<longrightarrow> calls (fst (snd (request N w a m e d)))
                        = calls w @ [ApiCall m (baseURL @ e) d (accessToken a)])"
proof -
  have ea: "ensureAuthenticated N w a = (Return (), w, a)"
    using assms by (simp add: ensureAuthenticated_valid expiring_def)
  show ?thesis
    using request_idle [OF _ ea, of m e d] by (simp add: ea)
qed

theorem null_expiry_never_refreshed_witness:
  "ensureAuthenticated net_down w0 (api_with_expiry Null) = (Return (), w0, api_with_expiry Null)
   \<and> calls (fst (snd (request net_down w0 (api_with_expiry Null) ''GET'' ''/x'' NoData)))
       = [ApiCall ''GET'' (baseURL @ ''/x'') NoData (Some ''at1'')]"
  using null_expiry_never_refreshed [of "api_with_expiry Null" net_down w0 "''GET''" "''/x''" NoData]
  by (simp add: api_with_expiry_def constructor_def idle_def w0_def)

section \<open>Properties of the wrapper's operations and of suspend and resume\<close>

lemma blockGame_attempted:
  assumes "idle a"
  shows "attempted (''POST'', baseURL @ users_url acct @ ''/restrictedContent'',
                    RestrictedContent g ''game'' ''block'') w a (blockGame N w a acct g)"
proof -
  let ?rq = "request N w a ''POST'' (users_url acct @ ''/restrictedContent'') (RestrictedContent g ''game'' ''block'')"
  obtain r w' a' where rq: "?rq = (r, w', a')" by (cases ?rq)
  have at: "attempted (''POST'', baseURL @ users_url acct @ ''/restrictedContent'',
                    RestrictedContent g ''game'' ''block'') w a (r, w', a')"
    using request_attempted [OF assms, where m = "''POST''"
        and e = "users_url acct @ ''/restrictedContent''" and d = "RestrictedContent g ''game'' ''block''"
        and w = w and N = N] rq
    by simp
  show ?thesis
  proof (cases r)
    case (Return v)
    have "idle a'" using at by (simp add: attempted_def)
    then show ?thesis
      using attempted_Return [OF at Return, of "\<lambda>a. a" True] Return rq
      by (simp add: blockGame_def)
  next
    case (Throw e)
    then show ?thesis using attempted_Throw [OF at Throw] rq by (simp add: blockGame_def)
  next
    case Pending
    then show ?thesis using attempted_not_Pending [OF at] by simp
  qed
qed

lemma unblockGame_attempted:
  assumes "idle a"
  shows "attempted (''DELETE'', baseURL @ users_url acct @ ''/restrictedContent/'' @ g, NoData)
           w a (unblockGame N w a acct g)"
proof -
  let ?rq = "request N w a ''DELETE'' (users_url acct @ ''/restrictedContent/'' @ g) NoData"
  obtain r w' a' where rq: "?rq = (r, w', a')" by (cases ?rq)
  have at: "attempted (''DELETE'', baseURL @ users_url acct @ ''/restrictedContent/'' @ g, NoData)
              w a (r, w', a')"
    using request_attempted [OF assms, where m = "''DELETE''"
        and e = "users_url acct @ ''/restrictedContent/'' @ g" and d = NoData
        and w = w and N = N] rq
    by simp
  show ?thesis
  proof (cases r)
    case (Return v)
    have "idle a'" using at by (simp add: attempted_def)
    then show ?thesis
      using attempted_Return [OF at Return, of "\<lambda>a. a" True] Return rq
      by (simp add: unblockGame_def)
  next
    case (Throw e)
    then show ?thesis using attempted_Throw [OF at Throw] rq by (simp add: unblockGame_def)
  next
    case Pending
    then show ?thesis using attempted_not_Pending [OF at] by simp
  qed
qed

lemma restriction_attempted:
  assumes "idle a" "action r = ''block'' \<or> action r = ''unblock''"
  shows "attempted (restriction_request acct r) w a
           (if action r = ''block'' then blockGame N w a acct (gameId r)
            else unblockGame N w a acct (gameId r))"
  using assms blockGame_attempted [OF assms(1), of acct "gameId r" w N]
    unblockGame_attempted [OF assms(1), of acct "gameId r" w N]
  by (auto simp: restriction_request_def)

lemma setPlayTimeLimit_ok:
  assumes "idle a" "remote_ok N" "truthy (npsso a)"
  shows "fst (setPlayTimeLimit N w a acct lim) = Return True"
  using request_ok [OF assms, of w "''PUT''" "users_url acct @ ''/playTimeSettings''" "PlayTimeSettings lim (0 < lim)"]
  by (auto simp: setPlayTimeLimit_def split: prod.splits result.splits)

lemma getPlayTime_settles:
  assumes "idle a" "getPlayTime N w a acct = (r, w', a')"
  shows "r \<noteq> Pending \<and> idle a' \<and> npsso a' = npsso a"
proof (cases "cache_get w a (''playTime_'' @ acct)")
  case (Some v)
  with assms show ?thesis by (auto simp: getPlayTime_def)
next
  case None
  let ?rq = "request N w a ''GET'' (users_url acct @ ''/playTime'') NoData"
  obtain r0 w0 a0 where rq: "?rq = (r0, w0, a0)" by (cases ?rq)
  have at: "attempted (''GET'', baseURL @ users_url acct @ ''/playTime'', NoData) w a (r0, w0, a0)"
    using request_attempted [OF assms(1), where m = "''GET''"
        and e = "users_url acct @ ''/playTime''" and d = NoData and w = w and N = N] rq
    by simp
  then show ?thesis
    using assms(2) None rq
    by (cases r0) (auto simp: getPlayTime_def attempted_def Let_def)
qed

lemma on_psn_eq:
  "on_psn f p = (r, w', p') \<longleftrightarrow> (\<exists>a'. f (psn p) = (r, w', a') \<and> p' = p\<lparr>psn := a'\<rparr>)"
  by (auto simp: on_psn_def split: prod.splits)

lemma suspendSession_attempted:
  assumes "idle (psn p)" "suspendSession N w p acct = (r, w', p')"
  shows "attempted (''PUT'', baseURL @ users_url (accountId acct) @ ''/playTimeSettings'',
                    PlayTimeSettings 0 False) w (psn p) (r, w', psn p') \<and> config p' = config p"
proof -
  obtain r0 w0 a0 where sp: "setPlayTimeLimit N w (psn p) (accountId acct) 0 = (r0, w0, a0)"
    by (cases "setPlayTimeLimit N w (psn p) (accountId acct) 0")
  have at: "attempted (''PUT'', baseURL @ users_url (accountId acct) @ ''/playTimeSettings'',
                    PlayTimeSettings 0 False) w (psn p) (r0, w0, a0)"
    using setPlayTimeLimit_attempted [OF assms(1), of "accountId acct" 0 w N] sp by simp
  show ?thesis
    using assms(2) sp at
    by (cases r0) (auto simp: suspendSession_def on_psn_def attempted_def Let_def)
qed

lemma resumeSession_attempted:
  assumes "idle (psn p)" "resumeSession N w p acct = (r, w', p')"
  shows "attempted (''PUT'', baseURL @ users_url (accountId acct) @ ''/playTimeSettings'',
                    PlayTimeSettings (dailyLimit p) (0 < dailyLimit p)) w (psn p) (r, w', psn p')
         \<and> config p' = config p"
proof -
  obtain r0 w0 a0 where sp: "setPlayTimeLimit N w (psn p) (accountId acct) (dailyLimit p) = (r0, w0, a0)"
    by (cases "setPlayTimeLimit N w (psn p) (accountId acct) (dailyLimit p)")
  have at: "attempted (''PUT'', baseURL @ users_url (accountId acct) @ ''/playTimeSettings'',
                    PlayTimeSettings (dailyLimit p) (0 < dailyLimit p)) w (psn p) (r0, w0, a0)"
    using setPlayTimeLimit_attempted [OF assms(1), of "accountId acct" "dailyLimit p" w N] sp by simp
  show ?thesis
    using assms(2) sp at
    by (cases r0) (auto simp: resumeSession_def on_psn_def attempted_def Let_def)
qed

text \<open>
  C9. Through the idle queue \<open>setPlayTimeLimit\<close> sends at most one request, a PUT to the
  account's play-time settings whose body has \<open>enabled\<close> equal to \<open>limitMinutes > 0\<close>, and
  has sent it whenever it returns; \<open>_suspendSession\<close> likewise sends
  \<open>{dailyPlayTimeLimit: 0, enabled: false}\<close>.
\<close>

theorem setPlayTimeLimit_enabled:
  "(idle a \<longrightarrow>
      (api_requests (fst (snd (setPlayTimeLimit N w a acct lim))) = api_requests w
       \<or> api_requests (fst (snd (setPlayTimeLimit N w a acct lim))) = api_requests w @
            [(''PUT'', baseURL @ users_url acct @ ''/playTimeSettings'',
              PlayTimeSettings lim (0 < lim))])
      \<and> (fst (setPlayTimeLimit N w a acct lim) = Return True \<longrightarrow>
           api_requests (fst (snd (setPlayTimeLimit N w a acct lim))) = api_requests w @
            [(''PUT'', baseURL @ users_url acct @ ''/playTimeSettings'',
              PlayTimeSettings lim (0 < lim))]))
   \<and> (idle (psn p) \<longrightarrow>
      (api_requests (fst (snd (suspendSession N w p psnAccount))) = api_requests w
       \<or> api_requests (fst (snd (suspendSession N w p psnAccount))) = api_requests w @
            [(''PUT'', baseURL @ users_url (accountId psnAccount) @ ''/playTimeSettings'',
              PlayTimeSettings 0 False)])
      \<and> (fst (suspendSession N w p psnAccount) = Return () \<longrightarrow>
           api_requests (fst (snd (suspendSession N w p psnAccount))) = api_requests w @
            [(''PUT'', baseURL @ users_url (accountId psnAccount) @ ''/playTimeSettings'',
              PlayTimeSettings 0 False)]))"
proof (intro conjI impI)
  assume i: "idle a"
  obtain r w' a' where sp: "setPlayTimeLimit N w a acct lim = (r, w', a')"
    by (cases "setPlayTimeLimit N w a acct lim")
  note at = setPlayTimeLimit_attempted [OF i, of acct lim w N, unfolded sp]
  from at show "api_requests (fst (snd (setPlayTimeLimit N w a acct lim))) = api_requests w
       \<or> api_requests (fst (snd (setPlayTimeLimit N w a acct lim))) = api_requests w @
            [(''PUT'', baseURL @ users_url acct @ ''/playTimeSettings'',
              PlayTimeSettings lim (0 < lim))]"
    by (auto simp: sp attempted_def)
  assume "fst (setPlayTimeLimit N w a acct lim) = Return True"
  with at show "api_requests (fst (snd (setPlayTimeLimit N w a acct lim))) = api_requests w @
            [(''PUT'', baseURL @ users_url acct @ ''/playTimeSettings'',
              PlayTimeSettings lim (0 < lim))]"
    by (auto simp: sp attempted_def)
next
  assume i: "idle (psn p)"
  obtain r w' p' where sp: "suspendSession N w p psnAccount = (r, w', p')"
    by (cases "suspendSession N w p psnAccount")
  note at = suspendSession_attempted [OF i sp]
  from at show "api_requests (fst (snd (suspendSession N w p psnAccount))) = api_requests w
       \<or> api_requests (fst (snd (suspendSession N w p psnAccount))) = api_requests w @
            [(''PUT'', baseURL @ users_url (accountId psnAccount) @ ''/playTimeSettings'',
              PlayTimeSettings 0 False)]"
    by (auto simp: sp attempted_def)
  assume "fst (suspendSession N w p psnAccount) = Return ()"
  with at show "api_requests (fst (snd (suspendSession N w p psnAccount))) = api_requests w @
            [(''PUT'', baseURL @ users_url (accountId psnAccount) @ ''/playTimeSettings'',
              PlayTimeSettings 0 False)]"
    by (auto simp: sp attempted_def)
qed


lemma suspendSession_ok:
  assumes "idle (psn p)" "remote_ok N" "truthy (npsso (psn p))"
  shows "fst (suspendSession N w p acct) = Return ()"
  using setPlayTimeLimit_ok [OF assms(1-3), of w "accountId acct" 0]
  by (auto simp: suspendSession_def on_psn_def Let_def split: prod.splits result.splits)

lemma api_requests_clock [simp]: "api_requests (w\<lparr>clock := t\<rparr>) = api_requests w"
  by (simp add: api_requests_def)



theorem setPlayTimeLimit_enabled_witness:
  "api_requests (fst (snd (setPlayTimeLimit net_ok w0 (api_with_expiry Null) ''kid1'' 0))) =
     [(''PUT'', baseURL @ users_url ''kid1'' @ ''/playTimeSettings'', PlayTimeSettings 0 False)]
   \<and> api_requests (fst (snd (suspendSession net_ok w0 plugin0 account1))) =
     [(''PUT'', baseURL @ users_url ''kid1'' @ ''/playTimeSettings'', PlayTimeSettings 0 False)]"
  using setPlayTimeLimit_enabled [where a = "api_with_expiry Null" and N = net_ok and w = w0
      and acct = "''kid1''" and lim = 0 and p = plugin0 and psnAccount = account1]
    setPlayTimeLimit_ok [of "api_with_expiry Null" net_ok w0 "''kid1''" 0]
    suspendSession_ok [of plugin0 net_ok w0 account1]
  by (simp add: plugin0_def config0_def account1_def api_with_expiry_def constructor_def
      idle_def remote_ok_def net_ok_def api_requests_def w0_def)

section \<open>Properties of the game restrictions\<close>




section \<open>Properties of the batch processing\<close>

lemma applyGameRestrictions_loop_settles:
  assumes "idle a" and "applyGameRestrictions_loop N w a acct rs = (res, w', a')"
  shows "idle a' \<and> res \<noteq> Pending"
  using assms
proof (induction rs arbitrary: w a)
  case Nil
  then show ?case by auto
next
  case (Cons r rs)
  show ?case
  proof (cases "action r = ''block'' \<or> action r = ''unblock''")
    case False
    then show ?thesis using Cons by simp
  next
    case True
    let ?op = "if action r = ''block'' then blockGame N w a acct (gameId r)
               else unblockGame N w a acct (gameId r)"
    obtain r1 w1 a1 where op: "?op = (r1, w1, a1)" by (cases ?op)
    have at: "attempted (restriction_request acct r) w a (r1, w1, a1)"
      using restriction_attempted [OF Cons.prems(1) True, of acct w N] op by simp
    have loop: "applyGameRestrictions_loop N w a acct (r # rs) =
        (case r1 of Return _ \<Rightarrow> applyGameRestrictions_loop N w1 a1 acct rs
         | Throw e \<Rightarrow> (Throw e, w1, a1) | Pending \<Rightarrow> (Pending, w1, a1))"
      using op True by (auto split: if_splits)
    from at have fr: "idle a1" "r1 \<noteq> Pending" by (auto simp: attempted_def)
    show ?thesis
    proof (cases r1)
      case (Return v)
      then show ?thesis using Cons.IH [OF fr(1)] Cons.prems(2) unfolding loop by simp
    next
      case (Throw e)
      then show ?thesis using fr Cons.prems(2) unfolding loop by auto
    next
      case Pending
      then show ?thesis using fr by simp
    qed
  qed
qed

lemma applyGameRestrictions_settles:
  assumes "idle (psn p)"
  shows "settles p (applyGameRestrictions N w p acct rs)"
proof -
  obtain r0 w0 a0 where loop: "applyGameRestrictions_loop N w (psn p) (accountId acct) rs = (r0, w0, a0)"
    by (cases "applyGameRestrictions_loop N w (psn p) (accountId acct) rs")
  from applyGameRestrictions_loop_settles [OF assms loop] loop
  show ?thesis
    by (cases r0) (auto simp: applyGameRestrictions_def on_psn_def settles_def)
qed

lemma suspendSession_settles:
  assumes "idle (psn p)"
  shows "settles p (suspendSession N w p acct)"
proof -
  obtain r w' p' where s: "suspendSession N w p acct = (r, w', p')"
    by (cases "suspendSession N w p acct")
  from suspendSession_attempted [OF assms s] show ?thesis
    by (auto simp: s settles_def attempted_def)
qed

lemma resumeSession_settles:
  assumes "idle (psn p)"
  shows "settles p (resumeSession N w p acct)"
proof -
  obtain r w' p' where s: "resumeSession N w p acct = (r, w', p')"
    by (cases "resumeSession N w p acct")
  from resumeSession_attempted [OF assms s] show ?thesis
    by (auto simp: s settles_def attempted_def)
qed

lemma checkQuota_settles:
  assumes "idle (psn p)"
  shows "settles p (checkQuota N Q w p childId acct)"
proof -
  obtain r0 w0 a0 where g: "getPlayTime N w (psn p) (accountId acct) = (r0, w0, a0)"
    by (cases "getPlayTime N w (psn p) (accountId acct)")
  from getPlayTime_settles [OF assms g] g
  show ?thesis
    by (cases r0)
       (auto simp: checkQuota_def on_psn_def settles_def Let_def split: prod.splits sum.splits)
qed

lemma settlesD:
  "settles p x \<Longrightarrow> x = (r, w', p') \<Longrightarrow> r \<noteq> Pending \<and> idle (psn p') \<and> config p' = config p"
  by (simp add: settles_def)

lemma enforceQuota_settles:
  assumes "idle (psn p)"
  shows "settles p (enforceQuota N Q w p childId st acct)"
proof (cases "blocked st")
  case True
  obtain r w' p' where s: "suspendSession N w p acct = (r, w', p')"
    by (cases "suspendSession N w p acct")
  from settlesD [OF suspendSession_settles [OF assms] s] s True
  show ?thesis by (cases r) (auto simp: enforceQuota_def settles_def)
next
  case False
  obtain r1 w1 p1 where c: "checkQuota N Q w p childId acct = (r1, w1, p1)"
    by (cases "checkQuota N Q w p childId acct")
  note c1 = settlesD [OF checkQuota_settles [OF assms] c]
  show ?thesis
  proof (cases r1)
    case (Return q)
    obtain isAllowed rest where q: "q = (isAllowed, rest)" by (cases q)
    obtain r2 w2 p2 where s: "suspendSession N w1 p1 acct = (r2, w2, p2)"
      by (cases "suspendSession N w1 p1 acct")
    obtain r3 w3 p3 where r: "resumeSession N w1 p1 acct = (r3, w3, p3)"
      by (cases "resumeSession N w1 p1 acct")
    from c1 have i1: "idle (psn p1)" by simp
    note s1 = settlesD [OF suspendSession_settles [OF i1] s]
    note r1 = settlesD [OF resumeSession_settles [OF i1] r]
    show ?thesis
      using False c Return q c1 s s1 r r1
      by (cases r2; cases r3)
         (auto simp: enforceQuota_def settles_def split: option.splits)
  next
    case (Throw e)
    then show ?thesis using False c c1 by (auto simp: enforceQuota_def settles_def)
  next
    case Pending
    then show ?thesis using c1 by simp
  qed
qed

lemma processChildActions_settles:
  assumes "idle (psn p)"
  shows "settles p (processChildActions N Q w p childId st acct)"
proof -
  obtain r1 w1 p1 where e: "enforceQuota N Q w p childId st acct = (r1, w1, p1)"
    by (cases "enforceQuota N Q w p childId st acct")
  note e1 = settlesD [OF enforceQuota_settles [OF assms] e]
  show ?thesis
  proof (cases r1)
    case (Return actions)
    show ?thesis
    proof (cases "restrictions st")
      case None
      then show ?thesis using e Return e1 by (auto simp: processChildActions_def settles_def)
    next
      case (Some g)
      show ?thesis
      proof (cases g)
        case None
        then show ?thesis using e Return e1 Some
          by (auto simp: processChildActions_def settles_def)
      next
        case (Some games)
        obtain r2 w2 p2 where a: "applyGameRestrictions N w1 p1 acct games = (r2, w2, p2)"
          by (cases "applyGameRestrictions N w1 p1 acct games")
        from e1 have i1: "idle (psn p1)" by simp
        note a1 = settlesD [OF applyGameRestrictions_settles [OF i1] a]
        show ?thesis using e Return e1 \<open>restrictions st = Some g\<close> Some a a1
          by (cases r2) (auto simp: processChildActions_def settles_def)
      qed
    qed
  next
    case (Throw err)
    then show ?thesis using e e1 by (auto simp: processChildActions_def settles_def)
  next
    case Pending
    then show ?thesis using e1 by simp
  qed
qed

lemma processChildState_result:
  assumes "idle (psn p)" and "processChildState N Q w p childId state = (r, w', p')"
  shows "idle (psn p') \<and> config p' = config p
       \<and> (\<exists>cr. r = Return cr \<and> result_childId cr = childId
              \<and> (getPSNAccountForChild p childId = None \<longrightarrow>
                   cr = Skipped childId ''No PSN account mapped''))"
proof (cases "getPSNAccountForChild p childId")
  case None
  then show ?thesis using assms by (auto simp: processChildState_def)
next
  case (Some acct)
  show ?thesis
  proof (cases state)
    case None
    then show ?thesis using assms Some by (auto simp: processChildState_def)
  next
    case (Some st)
    obtain r1 w1 p1 where a: "processChildActions N Q w p childId st acct = (r1, w1, p1)"
      by (cases "processChildActions N Q w p childId st acct")
    note a1 = settlesD [OF processChildActions_settles [OF assms(1)] a]
    show ?thesis
      using assms(2) a a1 \<open>getPSNAccountForChild p childId = Some acct\<close> Some
      by (cases r1) (auto simp: processChildState_def)
  qed
qed

lemma getPSNAccountForChild_config:
  "config p' = config p \<Longrightarrow> getPSNAccountForChild p' c = getPSNAccountForChild p c"
  by (simp add: getPSNAccountForChild_def)

lemma sweep_length [simp]: "length (sweep N Q w p children) = Suc (length children)"
  by (induction children arbitrary: w p) (auto split: prod.splits)

lemma sweep_nonempty [simp]: "sweep N Q w p children \<noteq> []"
  by (cases children) (auto split: prod.splits)

lemma processChildState_entry:
  assumes "idle (psn p)" and "processChildState N Q w p childId st = (r, w', p')"
  shows "\<exists>cr. r = Return cr \<and> result_childId cr = childId
     \<and> (getPSNAccountForChild p childId = None \<longrightarrow>
           cr = Skipped childId ''No PSN account mapped'')
     \<and> (\<forall>acct s e. getPSNAccountForChild p childId = Some acct \<and> st = Some s \<and>
            fst (processChildActions N Q w p childId s acct) = Throw e \<longrightarrow>
            cr = Failure childId (message e))
     \<and> (\<forall>acct s actions. getPSNAccountForChild p childId = Some acct \<and> st = Some s \<and>
            fst (processChildActions N Q w p childId s acct) = Return actions \<longrightarrow>
            cr = Success childId (accountId acct) actions)"
proof (cases "getPSNAccountForChild p childId")
  case None
  then show ?thesis using assms by (auto simp: processChildState_def)
next
  case (Some acct)
  show ?thesis
  proof (cases st)
    case None
    then show ?thesis using assms Some by (auto simp: processChildState_def)
  next
    case (Some s)
    obtain r1 w1 p1 where a: "processChildActions N Q w p childId s acct = (r1, w1, p1)"
      by (cases "processChildActions N Q w p childId s acct")
    note a1 = settlesD [OF processChildActions_settles [OF assms(1)] a]
    show ?thesis
      using assms(2) a a1 \<open>getPSNAccountForChild p childId = Some acct\<close> Some
      by (cases r1) (auto simp: processChildState_def)
  qed
qed

lemma newState_loop_sweep:
  assumes "idle (psn p)" and "config p = config p0"
    and "newState_loop N Q w p children acc = (r, w', p')"
  shows "(w', p') = last (sweep N Q w p children) \<and> config p' = config p0 \<and> idle (psn p') \<and>
     (\<exists>results. r = Return (acc @ results)
        \<and> map Return results =
            map (\<lambda>((childId, st), (wi, pi)). fst (processChildState N Q wi pi childId st))
              (zip children (sweep N Q w p children))
        \<and> list_all2
            (\<lambda>((childId, st), (wi, pi)) cr.
               result_childId cr = childId \<and> config pi = config p0
               \<and> (getPSNAccountForChild p0 childId = None \<longrightarrow>
                     cr = Skipped childId ''No PSN account mapped'')
               \<and> (\<forall>acct s e. getPSNAccountForChild p0 childId = Some acct \<and> st = Some s \<and>
                      fst (processChildActions N Q wi pi childId s acct) = Throw e \<longrightarrow>
                      cr = Failure childId (message e))
               \<and> (\<forall>acct s actions. getPSNAccountForChild p0 childId = Some acct \<and> st = Some s \<and>
                      fst (processChildActions N Q wi pi childId s acct) = Return actions \<longrightarrow>
                      cr = Success childId (accountId acct) actions))
            (zip children (sweep N Q w p children)) results)"
  using assms
proof (induction children arbitrary: w p acc)
  case Nil
  then show ?case by simp
next
  case (Cons c children)
  let ?F = "\<lambda>x :: (string \<times> child_state option) \<times> world \<times> plugin.
      fst (processChildState N Q (fst (snd x)) (snd (snd x)) (fst (fst x)) (snd (fst x)))"
  let ?E = "\<lambda>(x :: (string \<times> child_state option) \<times> world \<times> plugin) cr.
      result_childId cr = fst (fst x) \<and> config (snd (snd x)) = config p0
      \<and> (getPSNAccountForChild p0 (fst (fst x)) = None \<longrightarrow>
            cr = Skipped (fst (fst x)) ''No PSN account mapped'')
      \<and> (\<forall>acct s e. getPSNAccountForChild p0 (fst (fst x)) = Some acct \<and> snd (fst x) = Some s \<and>
             fst (processChildActions N Q (fst (snd x)) (snd (snd x)) (fst (fst x)) s acct) = Throw e \<longrightarrow>
             cr = Failure (fst (fst x)) (message e))
      \<and> (\<forall>acct s actions. getPSNAccountForChild p0 (fst (fst x)) = Some acct \<and> snd (fst x) = Some s \<and>
             fst (processChildActions N Q (fst (snd x)) (snd (snd x)) (fst (fst x)) s acct) = Return actions \<longrightarrow>
             cr = Success (fst (fst x)) (accountId acct) actions)"
  have F: "(\<lambda>((childId, st), (wi, pi)). fst (processChildState N Q wi pi childId st)) = ?F"
    by (simp add: fun_eq_iff)
  have E: "(\<lambda>((childId, st), (wi, pi)) cr.
               result_childId cr = childId \<and> config pi = config p0
               \<and> (getPSNAccountForChild p0 childId = None \<longrightarrow>
                     cr = Skipped childId ''No PSN account mapped'')
               \<and> (\<forall>acct s e. getPSNAccountForChild p0 childId = Some acct \<and> st = Some s \<and>
                      fst (processChildActions N Q wi pi childId s acct) = Throw e \<longrightarrow>
                      cr = Failure childId (message e))
               \<and> (\<forall>acct s actions. getPSNAccountForChild p0 childId = Some acct \<and> st = Some s \<and>
                      fst (processChildActions N Q wi pi childId s acct) = Return actions \<longrightarrow>
                      cr = Success childId (accountId acct) actions)) = ?E"
    by (simp add: fun_eq_iff)
  define E where "E = ?E"
  define F where "F = ?F"
  obtain childId st where c: "c = (childId, st)" by (cases c)
  obtain r1 w1 p1 where pc: "processChildState N Q w p childId st = (r1, w1, p1)"
    by (cases "processChildState N Q w p childId st")
  from processChildState_result [OF Cons.prems(1) pc]
  have p1: "idle (psn p1)" "config p1 = config p" by simp_all
  have same: "getPSNAccountForChild p = getPSNAccountForChild p0"
    using getPSNAccountForChild_config [OF Cons.prems(2)] by (simp add: fun_eq_iff)
  from processChildState_entry [OF Cons.prems(1) pc, unfolded same]
  obtain cr where cr: "r1 = Return cr" and e0: "E ((childId, st), (w, p)) cr"
    unfolding E_def using Cons.prems(2) by auto
  have f0: "F ((childId, st), (w, p)) = Return cr"
    unfolding F_def using pc cr by simp
  have rest: "newState_loop N Q w1 p1 children (acc @ [cr]) = (r, w', p')"
    using Cons.prems(3) pc cr unfolding c by simp
  have c1: "config p1 = config p0" using p1(2) Cons.prems(2) by simp
  note ih = Cons.IH [OF p1(1) c1 rest, unfolded F E, folded E_def F_def]
  from ih have fin: "(w', p') = last (sweep N Q w1 p1 children)" "config p' = config p0"
      "idle (psn p')"
    by simp_all
  from ih have "\<exists>results. r = Return (acc @ [cr] @ results)
        \<and> map Return results = map F (zip children (sweep N Q w1 p1 children))
        \<and> list_all2 E (zip children (sweep N Q w1 p1 children)) results"
    by simp
  then obtain results where results: "r = Return (acc @ [cr] @ results)"
      "map Return results = map F (zip children (sweep N Q w1 p1 children))"
      "list_all2 E (zip children (sweep N Q w1 p1 children)) results"
    by (elim exE conjE)
  have sw: "sweep N Q w p (c # children) = (w, p) # sweep N Q w1 p1 children"
    unfolding c using pc by simp
  have "r = Return (acc @ (cr # results))
        \<and> map Return (cr # results) = map F (zip (c # children) (sweep N Q w p (c # children)))
        \<and> list_all2 E (zip (c # children) (sweep N Q w p (c # children))) (cr # results)"
    unfolding sw using results e0 f0 unfolding c by simp
  then have "\<exists>results. r = Return (acc @ results)
        \<and> map Return results = map F (zip (c # children) (sweep N Q w p (c # children)))
        \<and> list_all2 E (zip (c # children) (sweep N Q w p (c # children))) results"
    by (rule exI)
  moreover have "(w', p') = last (sweep N Q w p (c # children))"
    unfolding sw using fin(1) by simp
  ultimately have "(w', p') = last (sweep N Q w p (c # children)) \<and> config p' = config p0
      \<and> idle (psn p') \<and> (\<exists>results. r = Return (acc @ results)
        \<and> map Return results = map F (zip (c # children) (sweep N Q w p (c # children)))
        \<and> list_all2 E (zip (c # children) (sweep N Q w p (c # children))) results)"
    using fin(2,3) by simp
  then show ?case unfolding F E E_def F_def .
qed

lemmas batch_defs = newState_def processChildState_def processChildActions_def enforceQuota_def
        suspendSession_def setPlayTimeLimit_def getPSNAccountForChild_def
        on_psn_def request_def ensureAuthenticated_def expiring_def processQueue_def
        processQueue_loop.simps turn_def axios_eq plugin0_def plugin2_def config0_def
        children0_def children1_def
        blocked_state_def cache_del_def empty_session_def users_url_def
        api_with_expiry_def constructor_def w0_def net_first_fails_def net_down_def err401_def

text \<open>
  C8. On an initialized plugin with an idle queue, \<open>newState\<close> returns a successful
  batch whatever the remote and the quota service answer. Every child of the batch is
  processed, each from the state its predecessor left and whatever the predecessors'
  outcomes: the k-th entry of the results is what \<open>_processChildState\<close> returns for the
  k-th child at the k-th state of \<open>sweep\<close>, and \<open>newState\<close> ends in the state after the
  last child, with the \<open>stateProcessed\<close> event added. An entry carries its child's
  identifier; it is the skip result when the child has no mapped account, the failure
  entry with the error's message when the child's own actions throw, and the success
  entry with the actions taken when they return.
\<close>

theorem newState_isolates:
  assumes "isInitialized p" and "idle (psn p)"
  shows "\<exists>results.
       newState N Q w p children =
         (Return (BatchOk results), fst (last (sweep N Q w p children)),
          (snd (last (sweep N Q w p children)))
            \<lparr>emitted := emitted (snd (last (sweep N Q w p children))) @ [StateProcessed results]\<rparr>)
     \<and> map Return results =
         map (\<lambda>((childId, st), (wi, pi)). fst (processChildState N Q wi pi childId st))
           (zip children (sweep N Q w p children))
     \<and> list_all2
         (\<lambda>((childId, st), (wi, pi)) cr.
            result_childId cr = childId \<and> config pi = config p
            \<and> (getPSNAccountForChild p childId = None \<longrightarrow>
                  cr = Skipped childId ''No PSN account mapped'')
            \<and> (\<forall>acct s e. getPSNAccountForChild p childId = Some acct \<and> st = Some s \<and>
                   fst (processChildActions N Q wi pi childId s acct) = Throw e \<longrightarrow>
                   cr = Failure childId (message e))
            \<and> (\<forall>acct s actions. getPSNAccountForChild p childId = Some acct \<and> st = Some s \<and>
                   fst (processChildActions N Q wi pi childId s acct) = Return actions \<longrightarrow>
                   cr = Success childId (accountId acct) actions))
         (zip children (sweep N Q w p children)) results"
proof -
  obtain r w1 p1 where loop: "newState_loop N Q w p children [] = (r, w1, p1)"
    by (cases "newState_loop N Q w p children []")
  note l = newState_loop_sweep [OF assms(2) refl loop]
  from l have fin: "last (sweep N Q w p children) = (w1, p1)" by simp
  from l have "\<exists>results. r = Return results
     \<and> map Return results =
         map (\<lambda>((childId, st), (wi, pi)). fst (processChildState N Q wi pi childId st))
           (zip children (sweep N Q w p children))
     \<and> list_all2
         (\<lambda>((childId, st), (wi, pi)) cr.
            result_childId cr = childId \<and> config pi = config p
            \<and> (getPSNAccountForChild p childId = None \<longrightarrow>
                  cr = Skipped childId ''No PSN account mapped'')
            \<and> (\<forall>acct s e. getPSNAccountForChild p childId = Some acct \<and> st = Some s \<and>
                   fst (processChildActions N Q wi pi childId s acct) = Throw e \<longrightarrow>
                   cr = Failure childId (message e))
            \<and> (\<forall>acct s actions. getPSNAccountForChild p childId = Some acct \<and> st = Some s \<and>
                   fst (processChildActions N Q wi pi childId s acct) = Return actions \<longrightarrow>
                   cr = Success childId (accountId acct) actions))
         (zip children (sweep N Q w p children)) results"
    by simp
  then obtain results where results: "r = Return results"
     "map Return results =
         map (\<lambda>((childId, st), (wi, pi)). fst (processChildState N Q wi pi childId st))
           (zip children (sweep N Q w p children))"
     "list_all2
         (\<lambda>((childId, st), (wi, pi)) cr.
            result_childId cr = childId \<and> config pi = config p
            \<and> (getPSNAccountForChild p childId = None \<longrightarrow>
                  cr = Skipped childId ''No PSN account mapped'')
            \<and> (\<forall>acct s e. getPSNAccountForChild p childId = Some acct \<and> st = Some s \<and>
                   fst (processChildActions N Q wi pi childId s acct) = Throw e \<longrightarrow>
                   cr = Failure childId (message e))
            \<and> (\<forall>acct s actions. getPSNAccountForChild p childId = Some acct \<and> st = Some s \<and>
                   fst (processChildActions N Q wi pi childId s acct) = Return actions \<longrightarrow>
                   cr = Success childId (accountId acct) actions))
         (zip children (sweep N Q w p children)) results"
    by (elim exE conjE)
  have "newState N Q w p children =
         (Return (BatchOk results), fst (last (sweep N Q w p children)),
          (snd (last (sweep N Q w p children)))
            \<lparr>emitted := emitted (snd (last (sweep N Q w p children))) @ [StateProcessed results]\<rparr>)"
    unfolding fin using assms(1) loop results(1) by (simp add: newState_def)
  with results(2,3) show ?thesis by (intro exI conjI)
qed

theorem newState_isolates_witness:
  "isInitialized plugin2 \<and> idle (psn plugin2)
   \<and> fst (newState net_down quota_ok w0 plugin2 children1) =
       Return (BatchOk
         [Failure ''c1'' ''Failed to set play time limit: Request failed with status code 401'',
          Skipped ''c9'' ''No PSN account mapped'',
          Failure ''c2'' ''Failed to set play time limit: Request failed with status code 401'',
          Failure ''c3'' ''Failed to set play time limit: Request failed with status code 401''])
   \<and> map (\<lambda>((childId, st), (wi, pi)). fst (processChildState net_down quota_ok wi pi childId st))
        (zip children1 (sweep net_down quota_ok w0 plugin2 children1)) =
       [Return (Failure ''c1''
          ''Failed to set play time limit: Request failed with status code 401''),
        Return (Skipped ''c9'' ''No PSN account mapped''),
        Return (Failure ''c2''
          ''Failed to set play time limit: Request failed with status code 401''),
        Return (Failure ''c3''
          ''Failed to set play time limit: Request failed with status code 401'')]
   \<and> api_requests (fst (last (sweep net_down quota_ok w0 plugin2 children1))) =
       [(''PUT'', baseURL @ users_url ''kid1'' @ ''/playTimeSettings'', PlayTimeSettings 0 False),
        (''PUT'', baseURL @ users_url ''kid2'' @ ''/playTimeSettings'', PlayTimeSettings 0 False),
        (''PUT'', baseURL @ users_url ''kid3'' @ ''/playTimeSettings'', PlayTimeSettings 0 False)]
   \<and> fst (newState net_first_fails quota_ok w0 plugin0 children0) =
       Return (BatchOk
         [Failure ''c1'' ''Failed to set play time limit: Request failed with status code 401'',
          Skipped ''c9'' ''No PSN account mapped'',
          Success ''c2'' ''kid2'' [Suspend (Some ''bedtime'')]])
   \<and> api_requests (fst (snd (newState net_first_fails quota_ok w0 plugin0 children0))) =
       [(''PUT'', baseURL @ users_url ''kid1'' @ ''/playTimeSettings'', PlayTimeSettings 0 False),
        (''PUT'', baseURL @ users_url ''kid2'' @ ''/playTimeSettings'', PlayTimeSettings 0 False)]"
proof -
  have i: "isInitialized plugin2" "idle (psn plugin2)"
    by (simp_all add: plugin2_def plugin0_def api_with_expiry_def constructor_def idle_def)
  have ev1: "fst (newState net_first_fails quota_ok w0 plugin0 children0) =
     Return (BatchOk
       [Failure ''c1'' ''Failed to set play time limit: Request failed with status code 401'',
        Skipped ''c9'' ''No PSN account mapped'',
        Success ''c2'' ''kid2'' [Suspend (Some ''bedtime'')]])"
    by (simp add: batch_defs)
  have ev2: "api_requests (fst (snd (newState net_first_fails quota_ok w0 plugin0 children0))) =
     [(''PUT'', baseURL @ users_url ''kid1'' @ ''/playTimeSettings'', PlayTimeSettings 0 False),
      (''PUT'', baseURL @ users_url ''kid2'' @ ''/playTimeSettings'', PlayTimeSettings 0 False)]"
    by (simp add: batch_defs api_requests_def)
  have ev3: "fst (newState net_down quota_ok w0 plugin2 children1) =
     Return (BatchOk
       [Failure ''c1'' ''Failed to set play time limit: Request failed with status code 401'',
        Skipped ''c9'' ''No PSN account mapped'',
        Failure ''c2'' ''Failed to set play time limit: Request failed with status code 401'',
        Failure ''c3'' ''Failed to set play time limit: Request failed with status code 401''])"
    by (simp add: batch_defs)
  have ev4: "api_requests (fst (snd (newState net_down quota_ok w0 plugin2 children1))) =
     [(''PUT'', baseURL @ users_url ''kid1'' @ ''/playTimeSettings'', PlayTimeSettings 0 False),
      (''PUT'', baseURL @ users_url ''kid2'' @ ''/playTimeSettings'', PlayTimeSettings 0 False),
      (''PUT'', baseURL @ users_url ''kid3'' @ ''/playTimeSettings'', PlayTimeSettings 0 False)]"
    by (simp add: batch_defs api_requests_def)
  from newState_isolates [OF i, of net_down quota_ok w0 children1]
  obtain results where
    a: "newState net_down quota_ok w0 plugin2 children1 =
         (Return (BatchOk results), fst (last (sweep net_down quota_ok w0 plugin2 children1)),
          (snd (last (sweep net_down quota_ok w0 plugin2 children1)))
            \<lparr>emitted := emitted (snd (last (sweep net_down quota_ok w0 plugin2 children1)))
                          @ [StateProcessed results]\<rparr>)"
    and b: "map Return results =
         map (\<lambda>((childId, st), (wi, pi)). fst (processChildState net_down quota_ok wi pi childId st))
           (zip children1 (sweep net_down quota_ok w0 plugin2 children1))"
    by (elim exE conjE)
  from a ev3 have r: "results =
       [Failure ''c1'' ''Failed to set play time limit: Request failed with status code 401'',
        Skipped ''c9'' ''No PSN account mapped'',
        Failure ''c2'' ''Failed to set play time limit: Request failed with status code 401'',
        Failure ''c3'' ''Failed to set play time limit: Request failed with status code 401'']"
    by simp
  from a have w: "fst (snd (newState net_down quota_ok w0 plugin2 children1)) =
      fst (last (sweep net_down quota_ok w0 plugin2 children1))"
    by simp
  show ?thesis
    using i ev1 ev2 ev3 ev4 [unfolded w] b [unfolded r, symmetric] by simp
qed

section \<open>Properties of the request queue under interleaved callers\<close>

lemma loop_test_Cons:
  "requestQueue (papi s) = q # rest \<Longrightarrow>
   loop_test t i s = s\<lparr>papi := (papi s)\<lparr>requestQueue := rest\<rparr>,
                       activations := (activations s)[i := AwaitResponse q],
                       log := Started q t # log s\<rparr>"
  by (simp add: loop_test_def)

lemma loop_test_Nil:
  "requestQueue (papi s) = [] \<Longrightarrow>
   loop_test t i s = s\<lparr>papi := (papi s)\<lparr>isProcessingQueue := False\<rparr>,
                       activations := remove_nth i (activations s),
                       log := Drained t # log s\<rparr>"
  by (simp add: loop_test_def)

lemma paced_Started_idle:
  "paced os \<Longrightarrow> os = [] \<or> (\<exists>t' os'. os = Drained t' # os') \<Longrightarrow> paced (Started q t # os)"
  by auto

lemma submit_inv:
  assumes "queue_inv s"
  shows "queue_inv (submit t q (s\<lparr>now := t\<rparr>))"
proof -
  let ?s = "s\<lparr>now := t\<rparr>"
  from assms consider
      (idle) "activations s = []" "\<not> isProcessingQueue (papi s)"
        "log s = [] \<or> (\<exists>t os. log s = Drained t # os)"
    | (busy) "isProcessingQueue (papi s)"
    by (auto simp: queue_inv_def)
  then show ?thesis
  proof cases
    case idle
    obtain qh rest where q: "requestQueue (papi s) @ [q] = qh # rest"
      by (cases "requestQueue (papi s) @ [q]") auto
    have "submit t q ?s =
        s\<lparr>now := t, papi := (papi s)\<lparr>requestQueue := rest, isProcessingQueue := True\<rparr>,
          activations := [AwaitResponse qh], log := Started qh t # log s\<rparr>"
      using idle q by (simp add: submit_def Let_def loop_test_def)
    then show ?thesis
      using assms idle paced_Started_idle [of "log s" qh t]
      by (auto simp: queue_inv_def)
  next
    case busy
    then have "submit t q ?s = s\<lparr>now := t, papi := (papi s)\<lparr>requestQueue := requestQueue (papi s) @ [q]\<rparr>\<rparr>"
      by (simp add: submit_def Let_def)
    then show ?thesis using assms busy by (auto simp: queue_inv_def)
  qed
qed

lemma settle_inv:
  assumes "queue_inv s" "activations s ! i = AwaitResponse q" "i < length (activations s)"
  shows "queue_inv (settle t i q out (s\<lparr>now := t\<rparr>))"
proof -
  from assms obtain t0 os where sh: "activations s = [AwaitResponse q]" "i = 0"
      "isProcessingQueue (papi s)" "log s = Started q t0 # os"
    by (auto simp: queue_inv_def)
  from assms(1) sh have st: "started (log s) = map fst (delivered (log s)) @ [q]" "paced (log s)"
    by (auto simp: queue_inv_def)
  show ?thesis
  proof (cases "requestQueue (papi s)")
    case Nil
    then have "settle t i q out (s\<lparr>now := t\<rparr>) =
        s\<lparr>now := t, papi := (papi s)\<lparr>isProcessingQueue := False\<rparr>, activations := [],
          log := Drained t # Delivered q out 0 t # log s\<rparr>"
      using sh by (simp add: settle_def Let_def loop_test_def remove_nth_def)
    then show ?thesis using st sh by (simp add: queue_inv_def)
  next
    case (Cons qh rest)
    then have "settle t i q out (s\<lparr>now := t\<rparr>) =
        s\<lparr>now := t, activations := [AwaitDelay (t + int RATE_LIMIT_MS)],
          log := DelayArmed t # Delivered q out (Suc (length rest)) t # log s\<rparr>"
      using sh by (simp add: settle_def Let_def)
    then show ?thesis using st sh Cons by (simp add: queue_inv_def)
  qed
qed

lemma fire_inv:
  assumes "queue_inv s" "activations s ! i = AwaitDelay due" "i < length (activations s)" "due \<le> t"
  shows "queue_inv (loop_test t i (s\<lparr>now := t\<rparr>))"
proof -
  from assms obtain t1 q out n os qh rest where sh: "activations s = [AwaitDelay due]" "i = 0"
      "due = t1 + int RATE_LIMIT_MS"
      "isProcessingQueue (papi s)" "log s = DelayArmed t1 # Delivered q out n t1 # os"
      "requestQueue (papi s) = qh # rest"
    by (cases "requestQueue (papi s)") (auto simp: queue_inv_def)
  from assms(1) sh have st: "started (log s) = map fst (delivered (log s))" "paced (log s)"
    by (auto simp: queue_inv_def)
  have "loop_test t i (s\<lparr>now := t\<rparr>) =
      s\<lparr>now := t, papi := (papi s)\<lparr>requestQueue := rest\<rparr>, activations := [AwaitResponse qh],
        log := Started qh t # log s\<rparr>"
    using sh by (simp add: loop_test_def)
  then show ?thesis using st sh assms(4) by (simp add: queue_inv_def)
qed

lemma step_inv:
  assumes "queue_inv s" "step e s = Some s'"
  shows "queue_inv s'"
proof -
  obtain t ev where e: "e = (t, ev)" by (cases e)
  show ?thesis
  proof (cases ev)
    case (Submit q)
    then show ?thesis using assms submit_inv [OF assms(1), of t q]
      by (auto simp: e split: if_splits)
  next
    case (Settle i out)
    then show ?thesis using assms settle_inv [OF assms(1), of i _ t out]
      by (auto simp: e split: if_splits activation.splits)
  next
    case (Fire i)
    then show ?thesis using assms fire_inv [OF assms(1), of i _ t]
      by (auto simp: e split: if_splits activation.splits)
  qed
qed

lemma run_inv:
  "queue_inv s \<Longrightarrow> run evs s = Some s' \<Longrightarrow> queue_inv s'"
proof (induction evs arbitrary: s)
  case Nil
  then show ?case by simp
next
  case (Cons e evs)
  then show ?case by (auto split: option.splits dest: step_inv)
qed

lemma inv_pipeline_of: "\<not> isProcessingQueue a \<Longrightarrow> queue_inv (pipeline_of a t)"
  by (simp add: queue_inv_def pipeline_of_def)

lemma loop_test_order:
  "started (log (loop_test t i s)) @ requestQueue (papi (loop_test t i s))
     = started (log s) @ requestQueue (papi s)"
  by (cases "requestQueue (papi s)") (simp_all add: loop_test_def)

lemma loop_test_delivered: "delivered (log (loop_test t i s)) = delivered (log s)"
  by (cases "requestQueue (papi s)") (simp_all add: loop_test_def)

lemma step_order:
  assumes "step e s = Some s'"
  shows "started (log s') @ requestQueue (papi s') =
           started (log s) @ requestQueue (papi s) @ submitted [e]"
proof -
  obtain t ev where e: "e = (t, ev)" by (cases e)
  show ?thesis
  proof (cases ev)
    case (Submit q)
    then show ?thesis using assms
      by (auto simp: e submit_def Let_def loop_test_order split: if_splits)
  next
    case (Settle i out)
    then show ?thesis using assms
      by (auto simp: e settle_def Let_def loop_test_order split: if_splits activation.splits)
  next
    case (Fire i)
    then show ?thesis using assms
      by (auto simp: e loop_test_order split: if_splits activation.splits)
  qed
qed

lemma step_outcomes:
  assumes "step e s = Some s'"
  shows "map snd (delivered (log s')) = map snd (delivered (log s)) @ outcomes [e]"
proof -
  obtain t ev where e: "e = (t, ev)" by (cases e)
  show ?thesis
  proof (cases ev)
    case (Submit q)
    then show ?thesis using assms
      by (auto simp: e submit_def Let_def loop_test_delivered split: if_splits)
  next
    case (Settle i out)
    then show ?thesis using assms
      by (auto simp: e settle_def Let_def loop_test_delivered split: if_splits activation.splits)
  next
    case (Fire i)
    then show ?thesis using assms
      by (auto simp: e loop_test_delivered split: if_splits activation.splits)
  qed
qed

lemma submitted_Cons: "submitted (e # es) = submitted [e] @ submitted es"
  by (cases e; cases "snd e") auto

lemma outcomes_Cons: "outcomes (e # es) = outcomes [e] @ outcomes es"
  by (cases e; cases "snd e") auto

lemma run_order:
  "run evs s = Some s' \<Longrightarrow>
   started (log s') @ requestQueue (papi s') = started (log s) @ requestQueue (papi s) @ submitted evs"
proof (induction evs arbitrary: s)
  case Nil
  then show ?case by simp
next
  case (Cons e evs)
  then obtain s1 where s1: "step e s = Some s1" "run evs s1 = Some s'"
    by (auto split: option.splits)
  show ?case
    using Cons.IH [OF s1(2)] step_order [OF s1(1)] submitted_Cons [of e evs] by simp
qed

lemma run_outcomes:
  "run evs s = Some s' \<Longrightarrow>
   map snd (delivered (log s')) = map snd (delivered (log s)) @ outcomes evs"
proof (induction evs arbitrary: s)
  case Nil
  then show ?case by simp
next
  case (Cons e evs)
  then obtain s1 where s1: "step e s = Some s1" "run evs s1 = Some s'"
    by (auto split: option.splits)
  show ?case
    using Cons.IH [OF s1(2)] step_outcomes [OF s1(1)] outcomes_Cons [of e evs] by simp
qed

lemma inv_single_flight: "queue_inv s \<Longrightarrow> length (filter in_flight (activations s)) \<le> 1"
  by (auto simp: queue_inv_def)

lemma zip_own: "zip (map fst D @ r) (map snd D) = D"
  by (induction D) auto

text \<open>
  Whatever entries are pushed and however pushes, responses and timer expiries interleave,
  the entries handed to the transport so far followed by the entries still queued are the
  entries pushed, in that order; and at most one call is in flight.
\<close>

lemma queue_fifo:
  assumes "idle a" and "run evs (pipeline_of a t0) = Some s"
  shows "started (log s) @ requestQueue (papi s) = submitted evs
       \<and> started (log s) = take (length (started (log s))) (submitted evs)
       \<and> length (filter in_flight (activations s)) \<le> 1"
proof -
  have "queue_inv (pipeline_of a t0)" using assms(1) by (simp add: inv_pipeline_of idle_def)
  from run_inv [OF this assms(2)] have "length (filter in_flight (activations s)) \<le> 1"
    by (rule inv_single_flight)
  moreover have ord: "started (log s) @ requestQueue (papi s) = submitted evs"
    using run_order [OF assms(2)] assms(1) by (simp add: pipeline_of_def idle_def)
  moreover have "started (log s) = take (length (started (log s))) (submitted evs)"
    unfolding ord [symmetric] by simp
  ultimately show ?thesis by simp
qed

lemma paced_tail: "paced (x # os) \<Longrightarrow> paced os"
  by (induction "x # os" arbitrary: x os rule: paced.induct) auto

lemma paced_suffix: "paced (pre @ os) \<Longrightarrow> paced os"
  by (induction pre) (auto dest: paced_tail)

lemma paced_gap:
  assumes "paced os" "os = pre @ Started q2 t2 # DelayArmed ta # Delivered q1 out n t1 # post"
  shows "ta = t1 \<and> 0 < n \<and> t1 + int RATE_LIMIT_MS \<le> t2"
  using paced_suffix [of pre "Started q2 t2 # DelayArmed ta # Delivered q1 out n t1 # post"] assms
  by simp

lemma paced_after_settlement:
  assumes "paced os" "os = pre @ x # Delivered q1 out n t1 # post"
  shows "(0 < n \<and> x = DelayArmed t1) \<or> (n = 0 \<and> x = Drained t1)"
  using paced_suffix [of pre "x # Delivered q1 out n t1 # post"] assms
  by (cases x) auto

lemma paced_before_start:
  assumes "paced os" "os = pre @ Started q2 t2 # x # post"
  shows "(\<exists>ta. x = DelayArmed ta) \<or> (\<exists>td. x = Drained td)"
  using paced_suffix [of pre "Started q2 t2 # x # post"] assms
  by (cases x) auto

lemma paced_before_exit:
  assumes "paced os" "os = pre @ Drained td # post"
  shows "\<exists>q out post'. post = Delivered q out 0 td # post'"
proof -
  have "paced (Drained td # post)"
    using paced_suffix [of pre "Drained td # post"] assms by simp
  then show ?thesis
  proof (cases post)
    case Nil
    with \<open>paced (Drained td # post)\<close> show ?thesis by simp
  next
    case (Cons x post')
    with \<open>paced (Drained td # post)\<close> show ?thesis by (cases x) auto
  qed
qed

lemma paced_after_arming:
  assumes "paced os" "os = pre @ x # DelayArmed ta # post"
  shows "\<exists>q t. x = Started q t"
  using paced_suffix [of pre "x # DelayArmed ta # post"] assms
  by (cases x) auto

text \<open>
  C4. In every log the automaton produces from an idle wrapper (newest observation first):
  a call started after the timer was armed starts at least \<open>RATE_LIMIT_MS\<close> = 100 ms after
  the promise before it was settled, with a response or an error alike, and entries were
  queued at that settlement; each settlement is followed at once either by the arming of
  the timer, when entries are queued, or by the end of the loop at that same time, when
  none is, so that no delay is awaited after the last entry; a call starts only after
  the timer or after the loop had ended, never right after a settlement; what follows the
  arming of the timer is the start of the next call; and the loop ends only at a
  settlement that found nothing queued.
\<close>

theorem rate_limit_spacing:
  assumes "idle a" and "run evs (pipeline_of a t0) = Some s"
  shows "paced (log s) \<and> RATE_LIMIT_MS = 100
     \<and> (\<forall>pre q2 t2 ta q1 out n t1 post.
           log s = pre @ Started q2 t2 # DelayArmed ta # Delivered q1 out n t1 # post \<longrightarrow>
           ta = t1 \<and> 0 < n \<and> t1 + 100 \<le> t2)
     \<and> (\<forall>pre x q1 out n t1 post.
           log s = pre @ x # Delivered q1 out n t1 # post \<longrightarrow>
           (0 < n \<and> x = DelayArmed t1) \<or> (n = 0 \<and> x = Drained t1))
     \<and> (\<forall>pre q2 t2 x post.
           log s = pre @ Started q2 t2 # x # post \<longrightarrow>
           (\<exists>ta. x = DelayArmed ta) \<or> (\<exists>td. x = Drained td))
     \<and> (\<forall>pre x ta post.
           log s = pre @ x # DelayArmed ta # post \<longrightarrow> (\<exists>q t. x = Started q t))
     \<and> (\<forall>pre td post.
           log s = pre @ Drained td # post \<longrightarrow>
           (\<exists>q out post'. post = Delivered q out 0 td # post'))"
proof -
  have "queue_inv (pipeline_of a t0)" using assms(1) by (simp add: inv_pipeline_of idle_def)
  from run_inv [OF this assms(2)] have p: "paced (log s)" by (simp add: queue_inv_def)
  have r: "RATE_LIMIT_MS = 100" by (simp add: RATE_LIMIT_MS_def)
  have 1: "ta = t1 \<and> 0 < n \<and> t1 + 100 \<le> t2"
    if "log s = pre @ Started q2 t2 # DelayArmed ta # Delivered q1 out n t1 # post"
    for pre q2 t2 ta q1 out n t1 post
    using paced_gap [OF p that] by (simp add: r)
  have 2: "(0 < n \<and> x = DelayArmed t1) \<or> (n = 0 \<and> x = Drained t1)"
    if "log s = pre @ x # Delivered q1 out n t1 # post" for pre x q1 out n t1 post
    using paced_after_settlement [OF p that] .
  have 3: "(\<exists>ta. x = DelayArmed ta) \<or> (\<exists>td. x = Drained td)"
    if "log s = pre @ Started q2 t2 # x # post" for pre q2 t2 x post
    using paced_before_start [OF p that] .
  have 4: "\<exists>q t. x = Started q t"
    if "log s = pre @ x # DelayArmed ta # post" for pre x ta post
    using paced_after_arming [OF p that] .
  have 5: "\<exists>q out post'. post = Delivered q out 0 td # post'"
    if "log s = pre @ Drained td # post" for pre td post
    using paced_before_exit [OF p that] .
  show ?thesis
  proof (intro conjI allI impI)
    show "paced (log s)" by (rule p)
    show "RATE_LIMIT_MS = 100" by (rule r)
  qed (erule 1 [THEN conjunct1] 1 [THEN conjunct2, THEN conjunct1]
         1 [THEN conjunct2, THEN conjunct2] 2 3 4 5)+
qed

text \<open>
  C5. In every state the automaton reaches from an idle wrapper, the promises settled so
  far are those of the entries submitted, in order, each with the very outcome the
  transport gave for its call, error or response; the entries started and those queued
  are the entries submitted, so none is started twice. When a call fails while entries are
  queued, the failure is delivered to its entry, and once the timer is due the next queued
  entry is started. For a caller of \<open>request\<close> on an idle queue, a call the remote rejects
  makes \<open>request\<close> throw that very error, after exactly one call.
\<close>

theorem failures_delivered_queue_drains:
  assumes "idle a" and "run evs (pipeline_of a t0) = Some s"
  shows "delivered (log s) = zip (submitted evs) (outcomes evs)
       \<and> started (log s) @ requestQueue (papi s) = submitted evs
       \<and> (\<forall>q q' rest e t. activations s = [AwaitResponse q] \<and> requestQueue (papi s) = q' # rest
              \<and> now s \<le> t \<longrightarrow>
            (\<exists>s'. run [(t, Settle 0 (Inl e)), (t + int RATE_LIMIT_MS, Fire 0)] s = Some s'
                 \<and> delivered (log s') = delivered (log s) @ [(q, Inl e)]
                 \<and> activations s' = [AwaitResponse q']
                 \<and> started (log s') = started (log s) @ [q']
                 \<and> requestQueue (papi s') = rest))
       \<and> (\<forall>N w b m e d err w1 b1.
             idle b \<and> ensureAuthenticated N w b = (Return (), w1, b1)
               \<and> snd (N (calls w1) (ApiCall m (baseURL @ e) d (accessToken b1))) = Inl err \<longrightarrow>
             fst (request N w b m e d) = Throw err
               \<and> api_requests (fst (snd (request N w b m e d))) =
                   api_requests w @ [(m, baseURL @ e, d)])"
proof -
  have "queue_inv (pipeline_of a t0)" using assms(1) by (simp add: inv_pipeline_of idle_def)
  from run_inv [OF this assms(2)]
  have st: "started (log s) = map fst (delivered (log s)) @ awaited (activations s)"
    by (simp add: queue_inv_def)
  have ord: "started (log s) @ requestQueue (papi s) = submitted evs"
    using run_order [OF assms(2)] assms(1) by (simp add: pipeline_of_def idle_def)
  have out: "map snd (delivered (log s)) = outcomes evs"
    using run_outcomes [OF assms(2)] by (simp add: pipeline_of_def)
  have "zip (map fst (delivered (log s)) @ (awaited (activations s) @ requestQueue (papi s)))
            (map snd (delivered (log s))) = delivered (log s)"
    by (rule zip_own)
  then have 1: "delivered (log s) = zip (submitted evs) (outcomes evs)"
    using st ord out by simp
  have 3: "\<exists>s'. run [(t, Settle 0 (Inl e)), (t + int RATE_LIMIT_MS, Fire 0)] s = Some s'
                 \<and> delivered (log s') = delivered (log s) @ [(q, Inl e)]
                 \<and> activations s' = [AwaitResponse q']
                 \<and> started (log s') = started (log s) @ [q']
                 \<and> requestQueue (papi s') = rest"
    if "activations s = [AwaitResponse q]" "requestQueue (papi s) = q' # rest" "now s \<le> t"
    for q q' rest e t
    using that by (simp add: settle_def Let_def loop_test_def)
  have 4: "fst (request N w b m e d) = Throw err
               \<and> api_requests (fst (snd (request N w b m e d))) =
                   api_requests w @ [(m, baseURL @ e, d)]"
    if "idle b" "ensureAuthenticated N w b = (Return (), w1, b1)"
      "snd (N (calls w1) (ApiCall m (baseURL @ e) d (accessToken b1))) = Inl err"
    for N w b m e d err w1 b1
    using that request_idle [OF that(1,2), of m e d] ensureAuthenticated_frame [OF that(2)]
    by simp
  show ?thesis using 1 ord 3 4 by blast
qed

lemma schedule0_runs:
  "\<exists>s. run schedule0 (pipeline_of (api_with_expiry Null) 0) = Some s"
  by (simp add: schedule0_def pipeline_of_def api_with_expiry_def constructor_def submit_def
      settle_def loop_test_def remove_nth_def Let_def RATE_LIMIT_MS_def)

lemma schedule0_log:
  "map_option log (run schedule0 (pipeline_of (api_with_expiry Null) 0)) =
     Some [Drained 110, Delivered entry_b (Inr token_body) 0 110, Started entry_b 105,
           DelayArmed 5, Delivered entry_a (Inl err401) 1 5, Started entry_a 0]"
  by (simp add: schedule0_def pipeline_of_def api_with_expiry_def constructor_def submit_def
      settle_def loop_test_def remove_nth_def Let_def RATE_LIMIT_MS_def)

theorem rate_limit_spacing_witness:
  "idle (api_with_expiry Null)
   \<and> map_option log (run schedule0 (pipeline_of (api_with_expiry Null) 0)) =
       Some [Drained 110, Delivered entry_b (Inr token_body) 0 110, Started entry_b 105,
             DelayArmed 5, Delivered entry_a (Inl err401) 1 5, Started entry_a 0]
   \<and> paced [Drained 110, Delivered entry_b (Inr token_body) 0 110, Started entry_b 105,
            DelayArmed 5, Delivered entry_a (Inl err401) 1 5, Started entry_a 0]"
proof -
  have i: "idle (api_with_expiry Null)"
    by (simp add: api_with_expiry_def constructor_def idle_def)
  obtain s where s: "run schedule0 (pipeline_of (api_with_expiry Null) 0) = Some s"
    using schedule0_runs by (elim exE)
  from rate_limit_spacing [OF i s] have "paced (log s)" by (elim conjE)
  then show ?thesis
    using i s schedule0_log by simp
qed

theorem failures_delivered_queue_drains_witness:
  "idle (api_with_expiry Null)
   \<and> run schedule0 (pipeline_of (api_with_expiry Null) 0) \<noteq> None
   \<and> delivered (log (the (run schedule0 (pipeline_of (api_with_expiry Null) 0)))) =
       [(entry_a, Inl err401), (entry_b, Inr token_body)]
   \<and> activations (the (run (take 2 schedule0) (pipeline_of (api_with_expiry Null) 0))) =
       [AwaitResponse entry_a]
   \<and> requestQueue (papi (the (run (take 2 schedule0) (pipeline_of (api_with_expiry Null) 0)))) =
       [entry_b]
   \<and> (\<exists>s'. run [(5, Settle 0 (Inl err401)), (5 + int RATE_LIMIT_MS, Fire 0)]
               (the (run (take 2 schedule0) (pipeline_of (api_with_expiry Null) 0))) = Some s'
           \<and> activations s' = [AwaitResponse entry_b])"
proof -
  have i: "idle (api_with_expiry Null)"
    by (simp add: api_with_expiry_def constructor_def idle_def)
  obtain s where s: "run schedule0 (pipeline_of (api_with_expiry Null) 0) = Some s"
    using schedule0_runs by (elim exE)
  have two: "run (take 2 schedule0) (pipeline_of (api_with_expiry Null) 0) =
      Some \<lparr>papi = (api_with_expiry Null)\<lparr>requestQueue := [entry_b], isProcessingQueue := True\<rparr>,
            activations = [AwaitResponse entry_a], now = 0, log = [Started entry_a 0]\<rparr>"
    by (simp add: schedule0_def pipeline_of_def api_with_expiry_def constructor_def submit_def
        loop_test_def Let_def)
  note full = failures_delivered_queue_drains [OF i s]
  note part = failures_delivered_queue_drains [OF i two]
  let ?s2 = "\<lparr>papi = (api_with_expiry Null)\<lparr>requestQueue := [entry_b], isProcessingQueue := True\<rparr>,
            activations = [AwaitResponse entry_a], now = 0, log = [Started entry_a 0]\<rparr>"
  have prem: "activations ?s2 = [AwaitResponse entry_a] \<and> requestQueue (papi ?s2) = entry_b # []
      \<and> now ?s2 \<le> 5"
    by simp
  from part [THEN conjunct2, THEN conjunct2, THEN conjunct1, rule_format, OF prem, of err401]
  obtain s' where "run [(5, Settle 0 (Inl err401)), (5 + int RATE_LIMIT_MS, Fire 0)] ?s2 = Some s'"
    and "activations s' = [AwaitResponse entry_b]"
    by (elim exE conjE)
  then have "\<exists>s'. run [(5, Settle 0 (Inl err401)), (5 + int RATE_LIMIT_MS, Fire 0)]
               (the (run (take 2 schedule0) (pipeline_of (api_with_expiry Null) 0))) = Some s'
           \<and> activations s' = [AwaitResponse entry_b]"
    unfolding two option.sel by (intro exI conjI)
  moreover from full have "delivered (log s) = [(entry_a, Inl err401), (entry_b, Inr token_body)]"
    by (simp add: schedule0_def)
  ultimately show ?thesis using i s two by simp
qed

section \<open>Properties of concurrent calls of request\<close>














end
